theory Spec2Isabelle
  imports Complex_Main
begin

section \<open>Strings and POSIX paths\<close>

text \<open>
  Python strings are modelled as \<open>string\<close> (lists of \<open>char\<close>). The model is exact for
  ASCII text: case folding, white space and the regular-expression classes below are the
  ASCII parts of Python's definitions.
\<close>

datatype error = NameError | ValueError | KeyError | TypeError | OverflowError | AttributeError

definition startswith :: "string \<Rightarrow> string \<Rightarrow> bool" where
  \<comment> \<open>\<open>s.startswith(p)\<close>\<close>
  "startswith s p = (take (length p) s = p)"

definition endswith :: "string \<Rightarrow> string \<Rightarrow> bool" where
  \<comment> \<open>\<open>s.endswith(p)\<close>\<close>
  "endswith s p = (length p \<le> length s \<and> drop (length s - length p) s = p)"

definition lstrip_slash :: "string \<Rightarrow> string" where
  \<comment> \<open>\<open>s.lstrip('/')\<close>\<close>
  "lstrip_slash s = dropWhile (\<lambda>c. c = CHR ''/'') s"

definition rstrip_slash :: "string \<Rightarrow> string" where
  \<comment> \<open>\<open>s.rstrip('/')\<close>\<close>
  "rstrip_slash s = rev (dropWhile (\<lambda>c. c = CHR ''/'') (rev s))"

definition path_join :: "string \<Rightarrow> string \<Rightarrow> string" where
  \<comment> \<open>\<open>os.path.join(a, b)\<close> of posixpath, two arguments\<close>
  "path_join a b =
     (if startswith b ''/'' then b
      else if a = [] \<or> endswith a ''/'' then a @ b
      else a @ ''/'' @ b)"

definition basename :: "string \<Rightarrow> string" where
  \<comment> \<open>\<open>os.path.basename(p)\<close>: what follows the last slash\<close>
  "basename p = rev (takeWhile (\<lambda>c. c \<noteq> CHR ''/'') (rev p))"

definition dirname :: "string \<Rightarrow> string" where
  \<comment> \<open>\<open>os.path.dirname(p)\<close>: the head up to the last slash, trailing slashes
      stripped unless the head is slashes only\<close>
  "dirname p =
     (let head = rev (dropWhile (\<lambda>c. c \<noteq> CHR ''/'') (rev p))
      in if head \<noteq> [] \<and> \<not> (\<forall>c \<in> set head. c = CHR ''/'') then rstrip_slash head else head)"

section \<open>Container path to host path (get\_official\_paths.py)\<close>

record mapping =
  service :: string
  host_path :: string
  container_path :: string

fun first_matching :: "string \<Rightarrow> mapping list \<Rightarrow> string" where
  \<comment> \<open>the \<open>for mapping in sorted_mappings\<close> loop with its early return\<close>
  "first_matching cp [] = cp"
| "first_matching cp (m # ms) =
     (if startswith cp (container_path m)
      then path_join (host_path m) (lstrip_slash (drop (length (container_path m)) cp))
      else first_matching cp ms)"

definition sorted_mappings :: "mapping list \<Rightarrow> mapping list" where
  \<comment> \<open>\<open>sorted(mappings, key=lambda m: len(m['container_path']), reverse=True)\<close>:
      a stable sort, longest container path first\<close>
  "sorted_mappings ms = sort_key (\<lambda>m. - int (length (container_path m))) ms"

definition convert_container_path_to_host_path :: "string \<Rightarrow> mapping list \<Rightarrow> string" where
  "convert_container_path_to_host_path cp ms = first_matching cp (sorted_mappings ms)"

definition apply_mapping :: "mapping \<Rightarrow> string \<Rightarrow> string" where
  "apply_mapping m cp =
     path_join (host_path m) (lstrip_slash (drop (length (container_path m)) cp))"

section \<open>Characters: case, white space, word characters\<close>

definition upper_letters :: string where
  "upper_letters = ''ABCDEFGHIJKLMNOPQRSTUVWXYZ''"

definition lower_letters :: string where
  "lower_letters = ''abcdefghijklmnopqrstuvwxyz''"

definition digit_chars :: string where
  "digit_chars = ''0123456789''"

definition lower_char :: "char \<Rightarrow> char" where
  "lower_char c = (case map_of (zip upper_letters lower_letters) c of Some d \<Rightarrow> d | None \<Rightarrow> c)"

definition upper_char :: "char \<Rightarrow> char" where
  "upper_char c = (case map_of (zip lower_letters upper_letters) c of Some d \<Rightarrow> d | None \<Rightarrow> c)"

definition lower :: "string \<Rightarrow> string" where
  \<comment> \<open>\<open>s.lower()\<close>\<close>
  "lower s = map lower_char s"

definition whitespace_chars :: string where
  \<comment> \<open>the ASCII characters for which \<open>str.isspace\<close> holds, which are also those of \<open>\s\<close>:
      space, tab, line feed, carriage return, vertical tab, form feed and 0x1C to 0x1F\<close>
  "whitespace_chars =
     [CHR '' '', CHR 0x09, CHR 0x0A, CHR 0x0D, CHR 0x0B, CHR 0x0C,
      CHR 0x1C, CHR 0x1D, CHR 0x1E, CHR 0x1F]"

definition is_space :: "char \<Rightarrow> bool" where
  "is_space c = (c \<in> set whitespace_chars)"

definition alnum_chars :: string where
  \<comment> \<open>the class \<open>[a-zA-Z0-9]\<close>\<close>
  "alnum_chars = lower_letters @ upper_letters @ digit_chars"

definition is_word :: "char \<Rightarrow> bool" where
  \<comment> \<open>\<open>\w\<close> on ASCII\<close>
  "is_word c = (c \<in> set (CHR ''_'' # alnum_chars))"

fun split_acc :: "string \<Rightarrow> string \<Rightarrow> string list" where
  "split_acc cur [] = (if cur = [] then [] else [cur])"
| "split_acc cur (x # xs) =
     (if is_space x then (if cur = [] then split_acc [] xs else cur # split_acc [] xs)
      else split_acc (cur @ [x]) xs)"

definition split_ws :: "string \<Rightarrow> string list" where
  \<comment> \<open>\<open>s.split()\<close>: the maximal runs of characters that are not white space\<close>
  "split_ws s = split_acc [] s"

fun join_with :: "string \<Rightarrow> string list \<Rightarrow> string" where
  \<comment> \<open>\<open>sep.join(ws)\<close>\<close>
  "join_with sep [] = []"
| "join_with sep [w] = w"
| "join_with sep (w # v # ws) = w @ sep @ join_with sep (v # ws)"

definition strip :: "string \<Rightarrow> string" where
  \<comment> \<open>\<open>s.strip()\<close>\<close>
  "strip s = rev (dropWhile is_space (rev (dropWhile is_space s)))"

definition is_substr :: "string \<Rightarrow> string \<Rightarrow> bool" where
  \<comment> \<open>\<open>x in s\<close> on strings\<close>
  "is_substr x s = (\<exists>i \<in> set [0 ..< Suc (length s)]. startswith (drop i s) x)"

section \<open>The regular expressions of the program\<close>

text \<open>
  The patterns the program uses are sequences of items: one character of a class, a
  class under \<open>?\<close>, \<open>*\<close> or \<open>+\<close>, an alternation of literal strings, \<open>\b\<close> and
  \<open>$\<close>. \<open>match_here\<close> is the backtracking matcher of \<open>re\<close> at one position: greedy
  quantifiers, alternatives left to right, and the first success wins. It returns the
  length of the match. The character before the position is carried for \<open>\b\<close>.
\<close>

datatype item =
    One string
  | Opt string
  | Star string
  | Plus string
  | Lits "string list"
  | WordB
  | Eol

fun item_size :: "item \<Rightarrow> nat" where
  "item_size (Lits alts) = Suc (length alts)"
| "item_size (Plus cs) = 2"
| "item_size _ = 1"

definition word_boundary :: "char option \<Rightarrow> string \<Rightarrow> bool" where
  "word_boundary prev s =
     ((case prev of None \<Rightarrow> False | Some c \<Rightarrow> is_word c)
        \<noteq> (case s of [] \<Rightarrow> False | x # _ \<Rightarrow> is_word x))"

definition at_eol :: "string \<Rightarrow> bool" where
  \<comment> \<open>\<open>$\<close> without MULTILINE: at the end, or before a final line feed\<close>
  "at_eol s = (s = [] \<or> s = [CHR 0x0A])"

definition last_of :: "string \<Rightarrow> char option \<Rightarrow> char option" where
  "last_of a prev = (if a = [] then prev else Some (last a))"

function match_here :: "item list \<Rightarrow> char option \<Rightarrow> string \<Rightarrow> nat option" where
  "match_here [] prev s = Some 0"
| "match_here (One cs # p) prev s =
     (case s of [] \<Rightarrow> None
      | x # xs \<Rightarrow> if x \<in> set cs then map_option Suc (match_here p (Some x) xs) else None)"
| "match_here (Opt cs # p) prev s =
     (case s of [] \<Rightarrow> match_here p prev s
      | x # xs \<Rightarrow>
          if x \<in> set cs
          then (case match_here p (Some x) xs of
                  Some n \<Rightarrow> Some (Suc n)
                | None \<Rightarrow> match_here p prev s)
          else match_here p prev s)"
| "match_here (Star cs # p) prev s =
     (case s of [] \<Rightarrow> match_here p prev s
      | x # xs \<Rightarrow>
          if x \<in> set cs
          then (case match_here (Star cs # p) (Some x) xs of
                  Some n \<Rightarrow> Some (Suc n)
                | None \<Rightarrow> match_here p prev s)
          else match_here p prev s)"
| "match_here (Plus cs # p) prev s =
     (case s of [] \<Rightarrow> None
      | x # xs \<Rightarrow>
          if x \<in> set cs then map_option Suc (match_here (Star cs # p) (Some x) xs) else None)"
| "match_here (Lits [] # p) prev s = None"
| "match_here (Lits (a # alts) # p) prev s =
     (if startswith s a
      then (case match_here p (last_of a prev) (drop (length a) s) of
              Some n \<Rightarrow> Some (length a + n)
            | None \<Rightarrow> match_here (Lits alts # p) prev s)
      else match_here (Lits alts # p) prev s)"
| "match_here (WordB # p) prev s = (if word_boundary prev s then match_here p prev s else None)"
| "match_here (Eol # p) prev s = (if at_eol s then match_here p prev s else None)"
  by pat_completeness auto
termination
  by (relation "measures [\<lambda>(p, prev, s). length s, \<lambda>(p, prev, s). sum_list (map item_size p)]")
    auto

function re_sub :: "item list \<Rightarrow> char option \<Rightarrow> string \<Rightarrow> string" where
  \<comment> \<open>\<open>re.sub(p, '', s)\<close>, scanning from a position whose preceding character is \<open>prev\<close>:
      every leftmost non-overlapping match is deleted. No pattern of the program matches
      the empty string; an empty match deletes nothing.\<close>
  "re_sub p prev [] = []"
| "re_sub p prev (x # xs) =
     (case match_here p prev (x # xs) of
        Some (Suc n) \<Rightarrow> re_sub p (Some (last (take (Suc n) (x # xs)))) (drop n xs)
      | _ \<Rightarrow> x # re_sub p (Some x) xs)"
  by pat_completeness auto
termination
  by (relation "measure (\<lambda>(p, prev, s). length s)") auto

definition ci :: "char \<Rightarrow> item" where
  \<comment> \<open>a literal character under \<open>re.IGNORECASE\<close>\<close>
  "ci c = One (remdups [lower_char c, upper_char c])"

definition lit :: "string \<Rightarrow> item list" where
  "lit s = map ci s"

section \<open>The name normalizer (find\_media\_dupes.py, src/find\_dupes.py)\<close>

definition year_pattern :: "item list" where
  \<comment> \<open>\<open>[\(\[\.](?:19|20)\d{2}[\)\]\.]?\<close>, matched case-sensitively\<close>
  "year_pattern =
     [One ''([.'', Lits [''19'', ''20''], One digit_chars, One digit_chars, Opt '')].'']"

definition patterns_to_remove :: "item list list" where
  "patterns_to_remove =
     [lit ''2160p'', lit ''1080p'', lit ''720p'', lit ''480p'',
      lit ''bluray'', lit ''web'' @ [Opt ''-''] @ lit ''dl'', lit ''webrip'', lit ''hdtv'',
      lit ''dvdrip'',
      lit ''x264'', lit ''x265'', lit ''hevc'', lit ''xvid'', lit ''divx'',
      lit ''aac'' @ [Opt digit_chars], lit ''ac3'', lit ''dts'', lit ''hdma'',
      lit ''repack'', lit ''proper'', lit ''extended'',
      lit ''hdr'' @ [Star digit_chars], lit ''dv'', lit ''dolby'', lit ''atmos'',
      [One ''-'', Plus alnum_chars, Eol],
      [WordB] @ lit ''dc'' @ [WordB],
      lit ''remux'',
      lit ''dubbed'',
      [WordB] @ lit ''ws'' @ [WordB],
      lit ''retail'',
      lit ''cd'' @ [One digit_chars],
      lit ''disc'' @ [One digit_chars],
      lit ''complete'']"

definition strip_tokens :: "string \<Rightarrow> string" where
  \<comment> \<open>the year substitution, then one substitution per pattern, in the list's order\<close>
  "strip_tokens name =
     fold (\<lambda>p n. re_sub p None n) patterns_to_remove (re_sub year_pattern None name)"

definition sep_chars :: string where
  \<comment> \<open>the class \<open>[._-]\<close>\<close>
  "sep_chars = ''._-''"

definition separators_to_spaces :: "string \<Rightarrow> string" where
  \<comment> \<open>\<open>re.sub(r'[._-]', ' ', name)\<close>\<close>
  "separators_to_spaces name = map (\<lambda>c. if c \<in> set sep_chars then CHR '' '' else c) name"

definition normalize_spacing :: "string \<Rightarrow> string" where
  \<comment> \<open>separators to spaces, \<open>' '.join(name.split())\<close>, \<open>.lower().strip()\<close>\<close>
  "normalize_spacing name =
     strip (lower (join_with '' '' (split_ws (separators_to_spaces name))))"

definition clean_media_name :: "string \<Rightarrow> string" where
  "clean_media_name name = normalize_spacing (strip_tokens name)"

section \<open>The similarity ratio (difflib.SequenceMatcher, as the grouper calls it)\<close>

text \<open>
  \<open>SequenceMatcher(None, a, b).ratio()\<close> with no junk predicate and \<open>autojunk\<close> left on.
  \<open>b2j\<close> lists, for a character, its positions in \<open>b\<close> in ascending order; when \<open>b\<close>
  has 200 characters or more, a character that occurs more than \<open>n // 100 + 1\<close> times is
  popular and has no entry. All indices stay within the two strings.
\<close>

definition popular :: "string \<Rightarrow> char \<Rightarrow> bool" where
  "popular b c =
     (200 \<le> length b \<and> length (filter (\<lambda>x. x = c) b) > length b div 100 + 1)"

definition b2j :: "string \<Rightarrow> char \<Rightarrow> nat list" where
  "b2j b c = (if popular b c then [] else filter (\<lambda>j. b ! j = c) [0 ..< length b])"

type_synonym best = "nat \<times> nat \<times> nat"

fun scan_row :: "nat \<Rightarrow> (nat \<times> nat) list \<Rightarrow> nat list \<Rightarrow> (nat \<times> nat) list \<times> best
    \<Rightarrow> (nat \<times> nat) list \<times> best" where
  \<comment> \<open>the loop over \<open>j\<close> for one \<open>i\<close>: \<open>k = newj2len[j] = j2len.get(j-1, 0) + 1\<close>, and the
      best block is replaced only by a strictly longer one\<close>
  "scan_row i j2len [] st = st"
| "scan_row i j2len (j # js) (newj2len, (besti, bestj, bestsize)) =
     (let k = (if j = 0 then 0 else (case map_of j2len (j - 1) of None \<Rightarrow> 0 | Some v \<Rightarrow> v)) + 1
      in scan_row i j2len js
           ((j, k) # newj2len,
            (if k > bestsize then (i + 1 - k, j + 1 - k, k) else (besti, bestj, bestsize))))"

fun scan_rows :: "string \<Rightarrow> string \<Rightarrow> nat \<Rightarrow> nat \<Rightarrow> nat list \<Rightarrow> (nat \<times> nat) list \<times> best \<Rightarrow> best" where
  \<comment> \<open>the loop \<open>for i in range(alo, ahi)\<close>; \<open>j < blo\<close> is skipped and \<open>j >= bhi\<close> ends the row\<close>
  "scan_rows a b blo bhi [] (j2len, bst) = bst"
| "scan_rows a b blo bhi (i # is) (j2len, bst) =
     scan_rows a b blo bhi is
       (scan_row i j2len (filter (\<lambda>j. blo \<le> j \<and> j < bhi) (b2j b (a ! i))) ([], bst))"

function extend_left :: "string \<Rightarrow> string \<Rightarrow> nat \<Rightarrow> nat \<Rightarrow> best \<Rightarrow> best" where
  "extend_left a b alo blo (besti, bestj, bestsize) =
     (if besti > alo \<and> bestj > blo \<and> a ! (besti - 1) = b ! (bestj - 1)
      then extend_left a b alo blo (besti - 1, bestj - 1, bestsize + 1)
      else (besti, bestj, bestsize))"
  by pat_completeness auto
termination
  by (relation "measure (\<lambda>(a, b, alo, blo, besti, bestj, bestsize). besti)") auto

function extend_right :: "string \<Rightarrow> string \<Rightarrow> nat \<Rightarrow> nat \<Rightarrow> best \<Rightarrow> best" where
  "extend_right a b ahi bhi (besti, bestj, bestsize) =
     (if besti + bestsize < ahi \<and> bestj + bestsize < bhi
         \<and> a ! (besti + bestsize) = b ! (bestj + bestsize)
      then extend_right a b ahi bhi (besti, bestj, bestsize + 1)
      else (besti, bestj, bestsize))"
  by pat_completeness auto
termination
  by (relation "measure (\<lambda>(a, b, ahi, bhi, besti, bestj, bestsize). ahi - (besti + bestsize))")
    auto

definition find_longest_match :: "string \<Rightarrow> string \<Rightarrow> nat \<Rightarrow> nat \<Rightarrow> nat \<Rightarrow> nat \<Rightarrow> best" where
  \<comment> \<open>with no junk the two loops that extend over junk never run\<close>
  "find_longest_match a b alo ahi blo bhi =
     extend_right a b ahi bhi
       (extend_left a b alo blo
          (scan_rows a b blo bhi [alo ..< ahi] ([], (alo, blo, 0))))"

text \<open>The longest match lies inside the range it was searched in; the recursion below terminates by this.\<close>

lemma scan_row_bounds:
  assumes "\<forall>(j, v) \<in> set j2len. v + alo \<le> i"
    and "alo \<le> i"
    and "alo \<le> besti \<and> (besti + bestsize \<le> Suc i \<or> (bestsize = 0 \<and> besti = alo))"
    and "scan_row i j2len js (newj2len, (besti, bestj, bestsize)) = (new', (bi, bj, bs))"
  shows "alo \<le> bi \<and> (bi + bs \<le> Suc i \<or> (bs = 0 \<and> bi = alo))"
  using assms
proof (induction js arbitrary: newj2len besti bestj bestsize)
  case Nil
  then show ?case by simp
next
  case (Cons j js)
  define k where "k = (if j = 0 then 0 else (case map_of j2len (j - 1) of None \<Rightarrow> 0 | Some v \<Rightarrow> v)) + 1"
  have kb: "k + alo \<le> Suc i"
  proof (cases "j = 0")
    case True
    then show ?thesis using Cons.prems(2) by (simp add: k_def)
  next
    case False
    show ?thesis
    proof (cases "map_of j2len (j - 1)")
      case None
      then show ?thesis using False Cons.prems(2) by (simp add: k_def)
    next
      case (Some v)
      then have "(j - 1, v) \<in> set j2len" by (rule map_of_SomeD)
      with Cons.prems(1) have "v + alo \<le> i" by auto
      then show ?thesis using False Some by (simp add: k_def)
    qed
  qed
  show ?case
  proof (cases "k > bestsize")
    case True
    have step: "scan_row i j2len js ((j, k) # newj2len, (i + 1 - k, j + 1 - k, k)) = (new', (bi, bj, bs))"
      using Cons.prems(4) True by (simp add: k_def Let_def)
    have inv: "alo \<le> i + 1 - k \<and> (i + 1 - k + k \<le> Suc i \<or> (k = 0 \<and> i + 1 - k = alo))"
      using kb by auto
    show ?thesis
      by (rule Cons.IH [OF Cons.prems(1) Cons.prems(2) inv step])
  next
    case False
    have step: "scan_row i j2len js ((j, k) # newj2len, (besti, bestj, bestsize)) = (new', (bi, bj, bs))"
      using Cons.prems(4) False by (simp add: k_def Let_def)
    show ?thesis
      by (rule Cons.IH [OF Cons.prems(1) Cons.prems(2) Cons.prems(3) step])
  qed
qed

lemma scan_row_entries:
  assumes "\<forall>(j, v) \<in> set j2len. v + alo \<le> i"
    and "alo \<le> i"
    and "\<forall>(j, v) \<in> set newj2len. v + alo \<le> Suc i"
    and "scan_row i j2len js (newj2len, bst) = (new', bst')"
  shows "\<forall>(j, v) \<in> set new'. v + alo \<le> Suc i"
  using assms
proof (induction js arbitrary: newj2len bst)
  case Nil
  then show ?case by simp
next
  case (Cons j js)
  obtain besti bestj bestsize where b: "bst = (besti, bestj, bestsize)" by (cases bst) auto
  define k where "k = (if j = 0 then 0 else (case map_of j2len (j - 1) of None \<Rightarrow> 0 | Some v \<Rightarrow> v)) + 1"
  have kb: "k + alo \<le> Suc i"
  proof (cases "j = 0")
    case True
    then show ?thesis using Cons.prems(2) by (simp add: k_def)
  next
    case False
    show ?thesis
    proof (cases "map_of j2len (j - 1)")
      case None
      then show ?thesis using False Cons.prems(2) by (simp add: k_def)
    next
      case (Some v)
      then have "(j - 1, v) \<in> set j2len" by (rule map_of_SomeD)
      with Cons.prems(1) have "v + alo \<le> i" by auto
      then show ?thesis using False Some by (simp add: k_def)
    qed
  qed
  have ent: "\<forall>(j, v) \<in> set ((j, k) # newj2len). v + alo \<le> Suc i"
    using kb Cons.prems(3) by auto
  from Cons.prems(4) obtain b2 where
    step: "scan_row i j2len js ((j, k) # newj2len, b2) = (new', bst')"
    by (simp add: b k_def Let_def)
  show ?case
    by (rule Cons.IH [OF Cons.prems(1) Cons.prems(2) ent step])
qed

lemma scan_rows_bounds:
  assumes "\<forall>(j, v) \<in> set j2len. v + alo \<le> i"
    and "alo \<le> i"
    and "alo \<le> besti \<and> (besti + bestsize \<le> i \<or> (bestsize = 0 \<and> besti = alo))"
    and "i \<le> ahi \<or> (bestsize = 0 \<and> besti = alo)"
    and "scan_rows a b blo bhi [i ..< ahi] (j2len, (besti, bestj, bestsize)) = (bi, bj, bs)"
  shows "alo \<le> bi \<and> (bi + bs \<le> ahi \<or> (bs = 0 \<and> bi = alo))"
  using assms
proof (induction "ahi - i" arbitrary: i j2len besti bestj bestsize)
  case 0
  then have "[i ..< ahi] = []" by simp
  with "0.prems" show ?case by auto
next
  case (Suc n)
  then have lt: "i < ahi" by simp
  then have up: "[i ..< ahi] = i # [Suc i ..< ahi]" by (simp add: upt_conv_Cons)
  obtain new' bi' bj' bs' where
    row: "scan_row i j2len (filter (\<lambda>j. blo \<le> j \<and> j < bhi) (b2j b (a ! i))) ([], (besti, bestj, bestsize))
            = (new', (bi', bj', bs'))"
    by (metis prod_cases3)
  have pre: "alo \<le> besti \<and> (besti + bestsize \<le> Suc i \<or> (bestsize = 0 \<and> besti = alo))"
    using Suc.prems(3) by auto
  have b1: "alo \<le> bi' \<and> (bi' + bs' \<le> Suc i \<or> (bs' = 0 \<and> bi' = alo))"
    by (rule scan_row_bounds [OF Suc.prems(1) Suc.prems(2) pre row])
  have e1: "\<forall>(j, v) \<in> set new'. v + alo \<le> Suc i"
    by (rule scan_row_entries [OF Suc.prems(1) Suc.prems(2) _ row]) simp
  have rest: "scan_rows a b blo bhi [Suc i ..< ahi] (new', (bi', bj', bs')) = (bi, bj, bs)"
    using Suc.prems(5) up row by simp
  have n: "n = ahi - Suc i" using Suc.hyps(2) by simp
  have le: "alo \<le> Suc i" using Suc.prems(2) by simp
  have le2: "Suc i \<le> ahi \<or> (bs' = 0 \<and> bi' = alo)" using lt by simp
  show ?case
    by (rule Suc.hyps(1) [OF n e1 le b1 le2 rest])
qed

lemma extend_left_bounds:
  "alo \<le> besti \<and> (besti + bestsize \<le> ahi \<or> (bestsize = 0 \<and> besti = alo)) \<Longrightarrow>
   extend_left a b alo blo (besti, bestj, bestsize) = (bi, bj, bs) \<Longrightarrow>
   alo \<le> bi \<and> (bi + bs \<le> ahi \<or> (bs = 0 \<and> bi = alo))"
proof (induction a b alo blo "(besti, bestj, bestsize)" arbitrary: besti bestj bestsize
    rule: extend_left.induct)
  case (1 a b alo blo besti bestj bestsize)
  show ?case
  proof (cases "besti > alo \<and> bestj > blo \<and> a ! (besti - 1) = b ! (bestj - 1)")
    case True
    have inv: "alo \<le> besti - 1 \<and>
        (besti - 1 + (bestsize + 1) \<le> ahi \<or> (bestsize + 1 = 0 \<and> besti - 1 = alo))"
      using True "1.prems"(1) by auto
    have step: "extend_left a b alo blo (besti - 1, bestj - 1, bestsize + 1) = (bi, bj, bs)"
      using "1.prems"(2) True by simp
    show ?thesis by (rule "1.hyps" [OF True inv step])
  next
    case False
    then show ?thesis using "1.prems" by auto
  qed
qed

lemma extend_right_bounds:
  "alo \<le> besti \<and> (besti + bestsize \<le> ahi \<or> (bestsize = 0 \<and> besti = alo)) \<Longrightarrow>
   extend_right a b ahi bhi (besti, bestj, bestsize) = (bi, bj, bs) \<Longrightarrow>
   alo \<le> bi \<and> (bi + bs \<le> ahi \<or> (bs = 0 \<and> bi = alo))"
proof (induction a b ahi bhi "(besti, bestj, bestsize)" arbitrary: besti bestj bestsize
    rule: extend_right.induct)
  case (1 a b ahi bhi besti bestj bestsize)
  show ?case
  proof (cases "besti + bestsize < ahi \<and> bestj + bestsize < bhi
         \<and> a ! (besti + bestsize) = b ! (bestj + bestsize)")
    case True
    have inv: "alo \<le> besti \<and>
        (besti + (bestsize + 1) \<le> ahi \<or> (bestsize + 1 = 0 \<and> besti = alo))"
      using True "1.prems"(1) by auto
    have step: "extend_right a b ahi bhi (besti, bestj, bestsize + 1) = (bi, bj, bs)"
      using "1.prems"(2) True by simp
    show ?thesis by (rule "1.hyps" [OF True inv step])
  next
    case False
    then show ?thesis using "1.prems" by auto
  qed
qed

lemma find_longest_match_bounds:
  assumes "find_longest_match a b alo ahi blo bhi = (i, j, k)" and "k \<noteq> 0"
  shows "alo \<le> i \<and> i + k \<le> ahi"
proof -
  obtain i1 j1 k1 where s1: "scan_rows a b blo bhi [alo ..< ahi] ([], (alo, blo, 0)) = (i1, j1, k1)"
    by (metis prod_cases3)
  obtain i2 j2 k2 where s2: "extend_left a b alo blo (i1, j1, k1) = (i2, j2, k2)"
    by (metis prod_cases3)
  have s3: "extend_right a b ahi bhi (i2, j2, k2) = (i, j, k)"
    using assms(1) s1 s2 by (simp add: find_longest_match_def)
  have b1: "alo \<le> i1 \<and> (i1 + k1 \<le> ahi \<or> (k1 = 0 \<and> i1 = alo))"
    by (rule scan_rows_bounds [OF _ _ _ _ s1]) auto
  have b2: "alo \<le> i2 \<and> (i2 + k2 \<le> ahi \<or> (k2 = 0 \<and> i2 = alo))"
    by (rule extend_left_bounds [OF b1 s2])
  have "alo \<le> i \<and> (i + k \<le> ahi \<or> (k = 0 \<and> i = alo))"
    by (rule extend_right_bounds [OF b2 s3])
  with assms(2) show ?thesis by auto
qed

lemma find_longest_match_bounds_sym:
  "(x, y) = find_longest_match a b alo ahi blo bhi \<Longrightarrow> (xa, ya) = y \<Longrightarrow> ya \<noteq> 0 \<Longrightarrow>
   alo \<le> x \<and> x + ya \<le> ahi"
  using find_longest_match_bounds [of a b alo ahi blo bhi x xa ya] by auto

text \<open>
  \<open>get_matching_blocks\<close> splits the two ranges around the longest match and recurses on
  both sides; \<open>ratio\<close> needs the total size of the blocks only.
\<close>

function matches_between :: "string \<Rightarrow> string \<Rightarrow> nat \<Rightarrow> nat \<Rightarrow> nat \<Rightarrow> nat \<Rightarrow> nat" where
  "matches_between a b alo ahi blo bhi =
     (case find_longest_match a b alo ahi blo bhi of
        (i, j, k) \<Rightarrow>
          if k = 0 then 0
          else k
            + (if alo < i \<and> blo < j then matches_between a b alo i blo j else 0)
            + (if i + k < ahi \<and> j + k < bhi then matches_between a b (i + k) ahi (j + k) bhi else 0))"
  by pat_completeness auto
termination
  apply (relation "measure (\<lambda>(a, b, alo, ahi, blo, bhi). ahi - alo)")
    apply simp
  subgoal for a b alo ahi blo bhi x y xa ya
    using find_longest_match_bounds_sym [of x y a b alo ahi blo bhi xa ya] by auto
  subgoal for a b alo ahi blo bhi x y xa ya
    using find_longest_match_bounds_sym [of x y a b alo ahi blo bhi xa ya] by auto
  done

definition ratio :: "string \<Rightarrow> string \<Rightarrow> rat" where
  \<comment> \<open>\<open>2.0 * matches / length\<close>, or 1.0 for two empty strings. The quotient is kept exact:
      below 10^15 characters the binary64 quotient exceeds the binary64 constant 0.9
      exactly when the exact quotient exceeds nine tenths.\<close>
  "ratio a b =
     (let n = length a + length b
      in if n = 0 then 1
         else 2 * of_nat (matches_between a b 0 (length a) 0 (length b)) / of_nat n)"

section \<open>The similarity grouper (find\_media\_dupes.py, src/find\_dupes.py)\<close>

text \<open>
  The folder index is a dictionary in insertion order: an association list whose keys are
  distinct. \<open>processed\<close> is the set of names already assigned.
\<close>

type_synonym folder_map = "(string \<times> string list) list"

record dup_group =
  base_folder :: string
  similar_folders :: "string list"
  similarity_scores :: "rat list"
  files :: "string list"

definition files_of :: "folder_map \<Rightarrow> string \<Rightarrow> string list" where
  \<comment> \<open>\<open>folder_map[folder]\<close>; the index is a \<open>defaultdict(list)\<close>\<close>
  "files_of fm folder = (case map_of fm folder of None \<Rightarrow> [] | Some fs \<Rightarrow> fs)"

definition cleaned_folders :: "folder_map \<Rightarrow> (string \<times> string) list" where
  "cleaned_folders fm = map (\<lambda>(folder, fs). (folder, clean_media_name folder)) fm"

fun scan_similar :: "bool \<Rightarrow> folder_map \<Rightarrow> string \<Rightarrow> string \<Rightarrow> (string \<times> string) list
    \<Rightarrow> string set \<times> dup_group \<Rightarrow> string set \<times> dup_group" where
  \<comment> \<open>the inner loop over \<open>folder2\<close>; \<open>extend_files\<close> is true for find\_media\_dupes.py,
      which also appends the similar folder's files, and false for src/find\_dupes.py\<close>
  "scan_similar extend_files fm folder1 clean_name1 [] st = st"
| "scan_similar extend_files fm folder1 clean_name1 ((folder2, clean_name2) # rest) (processed, g) =
     (if folder1 \<noteq> folder2 \<and> folder2 \<notin> processed \<and> clean_name2 \<noteq> []
      then (let r = ratio clean_name1 clean_name2
            in if r > 9 / 10
               then scan_similar extend_files fm folder1 clean_name1 rest
                      (insert folder2 processed,
                       g\<lparr>similar_folders := similar_folders g @ [folder2],
                         similarity_scores := similarity_scores g @ [r],
                         files := (if extend_files then files g @ files_of fm folder2
                                   else files g)\<rparr>)
               else scan_similar extend_files fm folder1 clean_name1 rest (processed, g))
      else scan_similar extend_files fm folder1 clean_name1 rest (processed, g))"

fun group_loop :: "bool \<Rightarrow> folder_map \<Rightarrow> (string \<times> string) list \<Rightarrow> (string \<times> string) list
    \<Rightarrow> string set \<times> dup_group list \<Rightarrow> string set \<times> dup_group list" where
  \<comment> \<open>the outer loop over \<open>folder1\<close>\<close>
  "group_loop extend_files fm cleaned [] st = st"
| "group_loop extend_files fm cleaned ((folder1, clean_name1) # rest) (processed, similar_groups) =
     (if folder1 \<in> processed \<or> clean_name1 = []
      then group_loop extend_files fm cleaned rest (processed, similar_groups)
      else (case scan_similar extend_files fm folder1 clean_name1 cleaned
                   (processed,
                    \<lparr>base_folder = folder1, similar_folders = [], similarity_scores = [],
                     files = files_of fm folder1\<rparr>) of
              (processed', current_group) \<Rightarrow>
                if similar_folders current_group \<noteq> []
                then group_loop extend_files fm cleaned rest
                       (insert folder1 processed', similar_groups @ [current_group])
                else group_loop extend_files fm cleaned rest (processed', similar_groups)))"

definition find_similar_media_folders :: "folder_map \<Rightarrow> dup_group list" where
  \<comment> \<open>find\_media\_dupes.py\<close>
  "find_similar_media_folders fm =
     snd (group_loop True fm (cleaned_folders fm) (cleaned_folders fm) ({}, []))"

definition find_similar_media_folders_fd :: "folder_map \<Rightarrow> dup_group list" where
  \<comment> \<open>src/find\_dupes.py: the same loops, the group's files are the base folder's only\<close>
  "find_similar_media_folders_fd fm =
     snd (group_loop False fm (cleaned_folders fm) (cleaned_folders fm) ({}, []))"

definition members :: "dup_group \<Rightarrow> string list" where
  "members g = base_folder g # similar_folders g"

definition similar_ok :: "string \<Rightarrow> string \<Rightarrow> bool" where
  \<comment> \<open>the test under which \<open>m\<close> joins the group of \<open>base\<close>\<close>
  "similar_ok base m =
     (m \<noteq> base \<and> clean_media_name base \<noteq> [] \<and> clean_media_name m \<noteq> []
      \<and> ratio (clean_media_name base) (clean_media_name m) > 9 / 10)"

definition group_ok :: "dup_group \<Rightarrow> bool" where
  "group_ok g =
     ((\<forall>m \<in> set (similar_folders g). similar_ok (base_folder g) m)
      \<and> similar_folders g \<noteq> []
      \<and> similarity_scores g
          = map (\<lambda>m. ratio (clean_media_name (base_folder g)) (clean_media_name m))
              (similar_folders g))"


text \<open>
  \<open>occurs_from\<close> is \<open>re.search\<close> for a non-empty match; \<open>has_token\<close> holds of a string in
  which the year pattern or one of the patterns to remove matches somewhere.
\<close>

fun occurs_from :: "item list \<Rightarrow> char option \<Rightarrow> string \<Rightarrow> bool" where
  "occurs_from p prev [] = False"
| "occurs_from p prev (x # xs) =
     ((case match_here p prev (x # xs) of Some (Suc n) \<Rightarrow> True | _ \<Rightarrow> False)
      \<or> occurs_from p (Some x) xs)"

definition has_token :: "string \<Rightarrow> bool" where
  "has_token s = (\<exists>p \<in> set (year_pattern # patterns_to_remove). occurs_from p None s)"

definition good_words :: "string list \<Rightarrow> bool" where
  "good_words ws = (\<forall>w \<in> set ws. w \<noteq> [] \<and> (\<forall>c \<in> set w. \<not> is_space c))"


section \<open>The official-path matcher (get\_official\_paths.py)\<close>

text \<open>
  The state of \<open>MediaServerPathLookup\<close> that the matcher reads: the folder-name index,
  the two catalogs as dictionaries in insertion order from title to host path (the other
  fields of an entry are not read here), and the protected roots.
\<close>

record official_info =
  kind :: string
  title :: string
  info_host_path :: string
  match_type :: "string option"

record lookup_state =
  folder_to_path_map :: "string \<rightharpoonup> official_info"
  sonarr_series_details :: "(string \<times> string) list"
  radarr_movie_details :: "(string \<times> string) list"
  root_folders_to_ignore :: "string list"

definition main_media_names :: "string list" where
  "main_media_names = [''films'', ''movies'', ''television'', ''tv'', ''videos'']"

fun is_protected_path :: "string list \<Rightarrow> string \<Rightarrow> bool" where
  \<comment> \<open>the loop over \<open>self.root_folders_to_ignore\<close>\<close>
  "is_protected_path [] path = False"
| "is_protected_path (root_folder # rest) path =
     (if path = root_folder \<or> startswith path (root_folder @ ''/'')
      then (if lower (basename path) \<in> set main_media_names then True
            else is_protected_path rest path)
      else is_protected_path rest path)"

definition year_suffix :: "string \<Rightarrow> bool" where
  \<comment> \<open>\<open>\s+\((\d{4})\)\<close> followed by \<open>$\<close>\<close>
  "year_suffix r =
     (takeWhile is_space r \<noteq> [] \<and>
      (case dropWhile is_space r of
         c0 # d1 # d2 # d3 # d4 # c5 # rest \<Rightarrow>
           c0 = CHR ''('' \<and> d1 \<in> set digit_chars \<and> d2 \<in> set digit_chars
           \<and> d3 \<in> set digit_chars \<and> d4 \<in> set digit_chars \<and> c5 = CHR '')'' \<and> at_eol rest
       | _ \<Rightarrow> False))"

fun movie_scan :: "string \<Rightarrow> string \<Rightarrow> string option" where
  \<comment> \<open>the lazy \<open>(.+?)\<close>: the group grows by one character, never a line feed, until the
      optional year suffix and \<open>$\<close> match\<close>
  "movie_scan g [] = Some g"
| "movie_scan g (x # xs) =
     (if year_suffix (x # xs) \<or> at_eol (x # xs) then Some g
      else if x = CHR 0x0A then None
      else movie_scan (g @ [x]) xs)"

definition movie_name :: "string \<Rightarrow> string option" where
  \<comment> \<open>group 1 of \<open>re.match(r'(.+?)(?:\s+\((\d{4})\))?$', basename)\<close>\<close>
  "movie_name b =
     (case b of [] \<Rightarrow> None
      | x # xs \<Rightarrow> if x = CHR 0x0A then None else movie_scan [x] xs)"

definition media_dirs :: "string list" where
  "media_dirs = [''Movies'', ''Television'', ''TV'', ''Series'', ''Films'', ''shows'']"

definition are_related_media_paths :: "string \<Rightarrow> string \<Rightarrow> string \<Rightarrow> bool" where
  "are_related_media_paths path1 path2 folder_name =
     (let basename1 = basename path1; basename2 = basename path2
      in if lower basename1 = lower basename2 then True
         else if folder_name \<noteq> []
                 \<and> (lower basename1 = lower folder_name \<or> lower basename2 = lower folder_name)
         then True
         else if (case (movie_name basename1, movie_name basename2) of
                    (Some g1, Some g2) \<Rightarrow>
                      (let movie_name1 = strip (lower g1); movie_name2 = strip (lower g2)
                       in movie_name1 = movie_name2
                          \<or> is_substr movie_name1 movie_name2
                          \<or> is_substr movie_name2 movie_name1)
                  | _ \<Rightarrow> False)
         then True
         else (let parent1 = lower (basename (dirname path1));
                   parent2 = lower (basename (dirname path2))
               in parent1 \<in> set (map lower media_dirs) \<and> parent2 \<in> set (map lower media_dirs)
                  \<and> lower basename1 = lower basename2))"

definition path_related :: "string \<Rightarrow> string \<Rightarrow> string \<Rightarrow> bool" where
  \<comment> \<open>the two nested conditions of the path-comparison tier for one catalog path and one
      duplicate path\<close>
  "path_related hp dup_path folder_name =
     (let host_basename = basename hp; dup_basename = basename dup_path
      in (lower host_basename = lower dup_basename
          \<or> is_substr (lower host_basename) (lower dup_basename)
          \<or> is_substr (lower dup_basename) (lower host_basename))
         \<and> (hp = dup_path
            \<or> dirname hp = dirname dup_path
            \<or> startswith hp (dup_path @ ''/'')
            \<or> startswith dup_path (hp @ ''/'')
            \<or> are_related_media_paths hp dup_path folder_name))"

fun scan_dups :: "string \<Rightarrow> string \<Rightarrow> string list \<Rightarrow> bool" where
  \<comment> \<open>\<open>for dup_path in duplicate_paths\<close>: true when the loop returns a match\<close>
  "scan_dups hp folder_name [] = False"
| "scan_dups hp folder_name (dup_path # rest) =
     (if path_related hp dup_path folder_name then True else scan_dups hp folder_name rest)"

fun path_tier :: "string \<Rightarrow> string \<Rightarrow> string list \<Rightarrow> (string \<times> string) list \<Rightarrow> official_info option" where
  \<comment> \<open>\<open>for title, details in ....items()\<close> of the path-comparison tier\<close>
  "path_tier k folder_name duplicate_paths [] = None"
| "path_tier k folder_name duplicate_paths ((t, hp) # rest) =
     (if scan_dups hp folder_name duplicate_paths
      then Some \<lparr>kind = k, title = t, info_host_path = hp, match_type = Some ''path_comparison''\<rparr>
      else path_tier k folder_name duplicate_paths rest)"

definition fuzzy_related :: "string \<Rightarrow> string \<Rightarrow> bool" where
  "fuzzy_related folder_name hp =
     (let db_folder = basename hp
      in lower folder_name = lower db_folder
         \<or> is_substr (lower folder_name) (lower db_folder)
         \<or> is_substr (lower db_folder) (lower folder_name))"

fun fuzzy_tier :: "string \<Rightarrow> string \<Rightarrow> (string \<times> string) list \<Rightarrow> official_info option" where
  "fuzzy_tier k folder_name [] = None"
| "fuzzy_tier k folder_name ((t, hp) # rest) =
     (if fuzzy_related folder_name hp
      then Some \<lparr>kind = k, title = t, info_host_path = hp, match_type = Some ''fuzzy_name''\<rparr>
      else fuzzy_tier k folder_name rest)"

definition get_official_path_for_folder ::
    "lookup_state \<Rightarrow> string \<Rightarrow> string list \<Rightarrow> official_info option" where
  "get_official_path_for_folder st folder_name duplicate_paths =
     (case folder_to_path_map st folder_name of
        Some entry \<Rightarrow> Some entry
      | None \<Rightarrow>
          (case path_tier ''series'' folder_name duplicate_paths (sonarr_series_details st) of
             Some m \<Rightarrow> Some m
           | None \<Rightarrow>
               (case path_tier ''movie'' folder_name duplicate_paths (radarr_movie_details st) of
                  Some m \<Rightarrow> Some m
                | None \<Rightarrow>
                    if folder_name \<noteq> []
                    then (case fuzzy_tier ''series'' folder_name (sonarr_series_details st) of
                            Some m \<Rightarrow> Some m
                          | None \<Rightarrow> fuzzy_tier ''movie'' folder_name (radarr_movie_details st))
                    else None)))"

text \<open>
  The duplicate-folders report is read as one string, split at the delimiter line, and
  each record is searched with two regular expressions under \<open>re.MULTILINE\<close>:
  \<open>Folder: (.*?)$\<close> (first occurrence, to the end of its line) and \<open>^\s+(/.*?)$\<close>.
  In the second, \<open>\s+\<close> also runs over line feeds, so the white space may start on an
  earlier line; the path is the rest of the line from the slash.
\<close>

definition delimiter :: string where
  "delimiter = replicate 50 (CHR ''='')"

function split_on :: "string \<Rightarrow> string \<Rightarrow> string \<Rightarrow> string list" where
  \<comment> \<open>\<open>s.split(sep)\<close> for a non-empty separator, \<open>cur\<close> being the piece read so far\<close>
  "split_on sep cur [] = [cur]"
| "split_on sep cur (x # xs) =
     (if sep \<noteq> [] \<and> startswith (x # xs) sep
      then cur # split_on sep [] (drop (length sep - 1) xs)
      else split_on sep (cur @ [x]) xs)"
  by pat_completeness auto
termination
  by (relation "measure (\<lambda>(sep, cur, s). length s)") auto

fun find_folder :: "string \<Rightarrow> string option" where
  \<comment> \<open>group 1 of \<open>re.search(r"Folder: (.*?)$", record, re.MULTILINE)\<close>\<close>
  "find_folder [] = None"
| "find_folder (x # xs) =
     (if startswith (x # xs) ''Folder: ''
      then Some (takeWhile (\<lambda>c. c \<noteq> CHR 0x0A) (drop (length ''Folder: '') (x # xs)))
      else find_folder xs)"

datatype scan_mode = AtStart | InSpace | MidLine | InPath string

fun path_matches :: "scan_mode \<Rightarrow> string \<Rightarrow> string list" where
  \<comment> \<open>group 1 of every match of \<open>re.finditer(r"^\s+(/.*?)$", record, re.MULTILINE)\<close>\<close>
  "path_matches (InPath p) [] = [p]"
| "path_matches m [] = []"
| "path_matches (InPath p) (x # xs) =
     (if x = CHR 0x0A then p # path_matches AtStart xs else path_matches (InPath (p @ [x])) xs)"
| "path_matches MidLine (x # xs) =
     (if x = CHR 0x0A then path_matches AtStart xs else path_matches MidLine xs)"
| "path_matches InSpace (x # xs) =
     (if is_space x then path_matches InSpace xs
      else if x = CHR ''/'' then path_matches (InPath ''/'') xs
      else path_matches MidLine xs)"
| "path_matches AtStart (x # xs) =
     (if is_space x then path_matches InSpace xs else path_matches MidLine xs)"

record lookup_result =
  folder :: string
  duplicate_paths :: "string list"
  official :: "official_info option"

definition unprotected :: "string list \<Rightarrow> string list \<Rightarrow> string list" where
  \<comment> \<open>the loop over the path matches: a protected path is skipped, the others are appended\<close>
  "unprotected roots paths = filter (\<lambda>path. \<not> is_protected_path roots path) paths"

fun lookup_records :: "lookup_state \<Rightarrow> string list \<Rightarrow> lookup_result list" where
  \<comment> \<open>\<open>for record in records\<close>\<close>
  "lookup_records st [] = []"
| "lookup_records st (record # rest) =
     (if strip record = [] then lookup_records st rest
      else (case find_folder record of
              None \<Rightarrow> lookup_records st rest
            | Some f \<Rightarrow>
                (let current_folder = strip f;
                     dups = unprotected (root_folders_to_ignore st)
                              (map strip (path_matches AtStart record))
                 in if dups \<noteq> []
                    then \<lparr>folder = current_folder, duplicate_paths = dups,
                          official = get_official_path_for_folder st current_folder dups\<rparr>
                         # lookup_records st rest
                    else lookup_records st rest)))"

definition lookup_duplicate_folders :: "lookup_state \<Rightarrow> string \<Rightarrow> lookup_result list" where
  \<comment> \<open>for a report file that exists, \<open>content\<close> being what \<open>f.read()\<close> returns\<close>
  "lookup_duplicate_folders st content = lookup_records st (split_on delimiter [] content)"

text \<open>A small catalog state and report, used to evaluate the matcher.\<close>

definition example_state :: lookup_state where
  "example_state =
     \<lparr>folder_to_path_map =
        [''Heat (1995)'' \<mapsto> \<lparr>kind = ''movie'', title = ''Heat'',
                                info_host_path = ''/media/Movies/Heat (1995)'',
                                match_type = None\<rparr>],
      sonarr_series_details = [(''Lost'', ''/media/TV/Lost'')],
      radarr_movie_details = [(''Heat'', ''/media/Movies/Heat (1995)'')],
      root_folders_to_ignore = [''/media/Movies'', ''/media/TV'']\<rparr>"

definition example_report :: string where
  "example_report =
     ''=== Duplicate Folders Report ==='' @ [CHR 0x0A] @ delimiter @ [CHR 0x0A]
     @ ''Folder: Heat'' @ [CHR 0x0A]
     @ ''  /media/Movies'' @ [CHR 0x0A]
     @ ''  /backup/Heat (1995)'' @ [CHR 0x0A]"


section \<open>The report parser (src/cleanup\_dupes.py)\<close>

record report_group =
  rg_base_folder :: "string option"
  base_files :: "(string \<times> string) list"
  rg_similar_folders :: "string list"
  similar_files :: "(string \<times> string) list"

definition new_group :: report_group where
  "new_group = \<lparr>rg_base_folder = None, base_files = [], rg_similar_folders = [], similar_files = []\<rparr>"

definition replace_with_empty :: "string \<Rightarrow> string \<Rightarrow> string" where
  \<comment> \<open>\<open>s.replace(old, '')\<close> for a non-empty \<open>old\<close>\<close>
  "replace_with_empty old s = concat (split_on old [] s)"

definition path_and_size :: "string \<Rightarrow> string \<times> string" where
  \<comment> \<open>\<open>parts = line.strip().split(' (')\<close>, the path \<open>parts[0].strip()\<close> and the size
      \<open>parts[1].replace(')', '')\<close>, or \<open>'Unknown'\<close> when there is one part only\<close>
  "path_and_size line =
     (case split_on '' ('' [] (strip line) of
        [] \<Rightarrow> ([], ''Unknown'')
      | [p] \<Rightarrow> (strip p, ''Unknown'')
      | p # q # rest \<Rightarrow> (strip p, filter (\<lambda>c. c \<noteq> CHR '')'') q))"

definition parse_line :: "report_group list \<times> report_group option \<Rightarrow> string
    \<Rightarrow> error + (report_group list \<times> report_group option)" where
  \<comment> \<open>the body of \<open>for line in lines\<close>; \<open>raw\<close> is the line as read, and every test is made
      on \<open>line = raw.strip()\<close>. Appending to \<open>current_group['similar_folders']\<close> while
      \<open>current_group\<close> is \<open>None\<close> raises TypeError.\<close>
  "parse_line st raw =
     (case st of (groups, current_group) \<Rightarrow>
        (let line = strip raw
         in if startswith line ''==='' \<and> length line > 10
            then Inr ((case current_group of None \<Rightarrow> groups | Some g \<Rightarrow> groups @ [g]),
                      Some new_group)
            else if startswith line ''Base Folder:''
            then Inr (groups,
                      (case current_group of
                         None \<Rightarrow> None
                       | Some g \<Rightarrow>
                           Some (g\<lparr>rg_base_folder :=
                                     Some (strip (replace_with_empty ''Base Folder:'' line))\<rparr>)))
            else if startswith line ''Similar Folder''
            then (case current_group of
                    None \<Rightarrow> Inl TypeError
                  | Some g \<Rightarrow>
                      Inr (groups, Some (g\<lparr>rg_similar_folders := rg_similar_folders g @ [line]\<rparr>)))
            else if startswith line ''  /''
            then (case path_and_size line of
                    (path, sz) \<Rightarrow>
                      Inr (groups,
                           (case current_group of
                              None \<Rightarrow> None
                            | Some g \<Rightarrow>
                                if rg_similar_folders g \<noteq> []
                                then Some (g\<lparr>similar_files := similar_files g @ [(path, sz)]\<rparr>)
                                else Some (g\<lparr>base_files := base_files g @ [(path, sz)]\<rparr>))))
            else Inr st))"

fun parse_lines :: "report_group list \<times> report_group option \<Rightarrow> string list
    \<Rightarrow> error + (report_group list \<times> report_group option)" where
  "parse_lines st [] = Inr st"
| "parse_lines st (raw # rest) =
     (case parse_line st raw of Inl e \<Rightarrow> Inl e | Inr st' \<Rightarrow> parse_lines st' rest)"

definition parse_report :: "string list \<Rightarrow> error + report_group list" where
  \<comment> \<open>\<open>lines\<close> is what \<open>f.readlines()\<close> returns\<close>
  "parse_report lines =
     (case parse_lines ([], None) lines of
        Inl e \<Rightarrow> Inl e
      | Inr (groups, current_group) \<Rightarrow>
          Inr (case current_group of None \<Rightarrow> groups | Some g \<Rightarrow> groups @ [g]))"



section \<open>Binary floating point, as far as the planner computes with it\<close>

text \<open>
  A Python \<open>float\<close> is an IEEE 754 binary64 value: a rational with a significand of at
  most 53 bits, an infinity or a NaN. \<open>binary64\<close> rounds a rational to the nearest such
  value, ties to the even significand, and to an infinity from \<open>2 ^ 1024\<close> on: it is the
  result of \<open>float\<close> on a decimal literal, of the conversion of an \<open>int\<close>, and of a
  product, applied to the exact value.
\<close>

datatype float64 = Finite rat | PosInf | NegInf | NaN

function bit_length :: "int \<Rightarrow> int" where
  \<comment> \<open>\<open>n.bit_length()\<close> of a natural number\<close>
  "bit_length n = (if n \<le> 0 then 0 else 1 + bit_length (n div 2))"
  by pat_completeness auto
termination
  by (relation "measure nat") auto

declare bit_length.simps [simp del]

definition pow2 :: "int \<Rightarrow> rat" where
  "pow2 e = (if 0 \<le> e then 2 ^ nat e else 1 / 2 ^ nat (- e))"

definition round_half_even :: "rat \<Rightarrow> int" where
  "round_half_even x =
     (let f = \<lfloor>x\<rfloor>; d = x - of_int f
      in if d < 1 / 2 then f else if 1 / 2 < d then f + 1 else if even f then f else f + 1)"

definition binary64 :: "rat \<Rightarrow> float64" where
  \<comment> \<open>\<open>l\<close> is the integer part of the binary logarithm of \<open>\<bar>x\<bar>\<close> and \<open>e\<close> the exponent
      of the last place, which is \<open>-1074\<close> at least\<close>
  "binary64 x =
     (if x = 0 then Finite 0
      else (case quotient_of \<bar>x\<bar> of
              (p, q) \<Rightarrow>
                (let d = bit_length p - bit_length q;
                     l = (if pow2 d \<le> \<bar>x\<bar> then d else d - 1);
                     e = max (l - 52) (- 1074);
                     r = of_int (round_half_even (x / pow2 e)) * pow2 e
                 in if pow2 1024 \<le> r then PosInf
                    else if r \<le> - pow2 1024 then NegInf
                    else Finite r)))"

definition float_times :: "float64 \<Rightarrow> rat \<Rightarrow> float64" where
  \<comment> \<open>the product of a float and a positive float \<open>c\<close>\<close>
  "float_times x c = (case x of Finite a \<Rightarrow> binary64 (a * c) | _ \<Rightarrow> x)"

definition py_int :: "float64 \<Rightarrow> error + int" where
  \<comment> \<open>\<open>int(x)\<close> truncates towards zero; it raises OverflowError on an infinity and
      ValueError on a NaN\<close>
  "py_int x =
     (case x of
        Finite a \<Rightarrow> Inr (if 0 \<le> a then \<lfloor>a\<rfloor> else \<lceil>a\<rceil>)
      | PosInf \<Rightarrow> Inl OverflowError
      | NegInf \<Rightarrow> Inl OverflowError
      | NaN \<Rightarrow> Inl ValueError)"

definition exceeds :: "int \<Rightarrow> int \<Rightarrow> error + bool" where
  \<comment> \<open>\<open>a > b * 1.5\<close> on two \<open>int\<close>s: \<open>b\<close> is converted to a float, which raises
      OverflowError when it is too large, the product is rounded, and the comparison of
      the \<open>int\<close> with the float is exact\<close>
  "exceeds a b =
     (case binary64 (of_int b) of
        Finite fb \<Rightarrow>
          Inr (case binary64 (fb * (3 / 2)) of
                 Finite r \<Rightarrow> r < of_int a
               | PosInf \<Rightarrow> False
               | NegInf \<Rightarrow> True
               | NaN \<Rightarrow> False)
      | _ \<Rightarrow> Inl OverflowError)"

section \<open>The cleanup planner (src/cleanup\_dupes.py)\<close>












definition units :: "string \<rightharpoonup> int" where
  "units = [''B'' \<mapsto> 1, ''KB'' \<mapsto> 1024, ''MB'' \<mapsto> 1024 ^ 2, ''GB'' \<mapsto> 1024 ^ 3,
            ''TB'' \<mapsto> 1024 ^ 4]"

definition format_size_bytes :: "(string \<Rightarrow> float64 option) \<Rightarrow> string \<Rightarrow> error + int" where
  \<comment> \<open>\<open>to_float\<close> stands for the built-in \<open>float\<close>: the value it returns, or \<open>None\<close>
      where it raises ValueError. Unpacking raises ValueError unless \<open>split()\<close> gives two
      parts, and an unknown unit raises KeyError.\<close>
  "format_size_bytes to_float size_str =
     (if size_str = ''Unknown'' then Inr 0
      else (case split_ws size_str of
              [number, unit] \<Rightarrow>
                (case to_float number of
                   None \<Rightarrow> Inl ValueError
                 | Some x \<Rightarrow>
                     (case units unit of
                        None \<Rightarrow> Inl KeyError
                      | Some u \<Rightarrow> py_int (float_times x (of_int u))))
            | _ \<Rightarrow> Inl ValueError))"

fun sizes_of :: "(string \<Rightarrow> float64 option) \<Rightarrow> (string \<times> string) list \<Rightarrow> error + int list" where
  \<comment> \<open>\<open>[format_size_bytes(size) for _, size, _ in files_info]\<close>\<close>
  "sizes_of to_float [] = Inr []"
| "sizes_of to_float ((file, sz) # rest) =
     (case format_size_bytes to_float sz of
        Inl e \<Rightarrow> Inl e
      | Inr n \<Rightarrow> (case sizes_of to_float rest of Inl e \<Rightarrow> Inl e | Inr ns \<Rightarrow> Inr (n # ns)))"



definition nl :: string where
  "nl = [CHR 0x0A]"













definition suggest_base :: string where
  "suggest_base = ''# Suggestion: Keep base files (larger size)'' @ nl"

definition suggest_similar :: string where
  "suggest_similar = ''# Suggestion: Keep similar files (larger size)'' @ nl"

definition size_suggestion :: "(string \<Rightarrow> float64 option) \<Rightarrow> report_group \<Rightarrow> string list \<times> error option" where
  \<comment> \<open>the size heuristic of the manual-review branch: both lists of sizes are built
      first, the base side's before the similar side's; the second comparison is made
      only when the first is false\<close>
  "size_suggestion to_float g =
     (case sizes_of to_float (base_files g) of
        Inl e \<Rightarrow> ([], Some e)
      | Inr base_sizes \<Rightarrow>
          (case sizes_of to_float (similar_files g) of
             Inl e \<Rightarrow> ([], Some e)
           | Inr similar_sizes \<Rightarrow>
               if base_sizes \<noteq> [] \<and> similar_sizes \<noteq> []
               then (let max_base = Max (set base_sizes); max_similar = Max (set similar_sizes)
                     in case exceeds max_base max_similar of
                          Inl e \<Rightarrow> ([], Some e)
                        | Inr True \<Rightarrow> ([suggest_base], None)
                        | Inr False \<Rightarrow>
                            (case exceeds max_similar max_base of
                               Inl e \<Rightarrow> ([], Some e)
                             | Inr True \<Rightarrow> ([suggest_similar], None)
                             | Inr False \<Rightarrow> ([], None)))
               else ([], None)))"








text \<open>
  \<open>decimal_float\<close> is the built-in \<open>float\<close> on a string: white space around the
  literal is dropped, a sign may come first, \<open>inf\<close>, \<open>infinity\<close> and \<open>nan\<close> are
  read in any case, and a number is a decimal with an optional exponent, whose groups of
  digits may hold single underscores between digits. The value is the binary64 nearest to
  the decimal; the two zeros are not told apart, which neither \<open>int\<close> nor a comparison
  does.
\<close>

fun digitpart_from :: "bool \<Rightarrow> string \<Rightarrow> bool" where
  \<comment> \<open>the rest of \<open>digit (["_"] digit)*\<close>; the flag tells that a digit came last\<close>
  "digitpart_from after_digit [] = after_digit"
| "digitpart_from after_digit (c # cs) =
     (if c \<in> set digit_chars then digitpart_from True cs
      else if c = CHR ''_'' \<and> after_digit then digitpart_from False cs
      else False)"

definition digitpart :: "string \<Rightarrow> bool" where
  "digitpart s = digitpart_from False s"

definition digits_value :: "string \<Rightarrow> nat" where
  "digits_value ds =
     foldl (\<lambda>a c. 10 * a + length (takeWhile (\<lambda>d. d \<noteq> c) digit_chars)) 0
       (filter (\<lambda>c. c \<noteq> CHR ''_'') ds)"

definition split_sign :: "string \<Rightarrow> bool \<times> string" where
  \<comment> \<open>an optional sign and the rest; the flag tells a minus\<close>
  "split_sign s =
     (case s of
        c # cs \<Rightarrow> if c = CHR ''-'' then (True, cs) else if c = CHR ''+'' then (False, cs)
                  else (False, s)
      | [] \<Rightarrow> (False, s))"

definition pow10 :: "int \<Rightarrow> rat" where
  "pow10 e = (if 0 \<le> e then 10 ^ nat e else 1 / 10 ^ nat (- e))"

definition decimal_value :: "string \<Rightarrow> rat option" where
  \<comment> \<open>the exact value of an unsigned number with an optional exponent, in lower case\<close>
  "decimal_value w =
     (let number = takeWhile (\<lambda>c. c \<noteq> CHR ''e'') w;
          exponent = dropWhile (\<lambda>c. c \<noteq> CHR ''e'') w;
          ip = takeWhile (\<lambda>c. c \<noteq> CHR ''.'') number;
          fp = drop 1 (dropWhile (\<lambda>c. c \<noteq> CHR ''.'') number)
      in case split_sign (drop 1 exponent) of
           (eneg, ed) \<Rightarrow>
             if \<not> (ip = [] \<and> fp = []) \<and> (ip = [] \<or> digitpart ip)
                \<and> (fp = [] \<or> digitpart fp) \<and> (exponent = [] \<or> digitpart ed)
             then Some ((of_nat (digits_value ip)
                         + of_nat (digits_value fp)
                           / 10 ^ length (filter (\<lambda>c. c \<noteq> CHR ''_'') fp))
                        * pow10 ((if eneg then - 1 else 1) * int (digits_value ed)))
             else None)"

definition decimal_float :: "string \<Rightarrow> float64 option" where
  "decimal_float s =
     (case split_sign (lower (strip s)) of
        (neg, w) \<Rightarrow>
          if w = ''inf'' \<or> w = ''infinity'' then Some (if neg then NegInf else PosInf)
          else if w = ''nan'' then Some NaN
          else (case decimal_value w of
                  None \<Rightarrow> None
                | Some v \<Rightarrow> Some (binary64 (if neg then - v else v))))"

section \<open>The report writer (src/find\_dupes.py)\<close>

text \<open>
  \<open>fmt2\<close> stands for the format \<open>.2f\<close> and \<open>stat\<close> for \<open>file.stat().st_size\<close>, which
  gives no size where it raises. A file is written with its size, or without it when the
  \<open>try\<close> block fails. The successive divisions by 1024 are kept exact.
\<close>

fun format_size_loop :: "(rat \<Rightarrow> string) \<Rightarrow> rat \<Rightarrow> string list \<Rightarrow> string" where
  "format_size_loop fmt2 size_bytes [] = fmt2 size_bytes @ '' TB''"
| "format_size_loop fmt2 size_bytes (unit # rest) =
     (if size_bytes < 1024 then fmt2 size_bytes @ '' '' @ unit
      else format_size_loop fmt2 (size_bytes / 1024) rest)"

definition format_size :: "(rat \<Rightarrow> string) \<Rightarrow> nat \<Rightarrow> string" where
  "format_size fmt2 size_bytes =
     format_size_loop fmt2 (of_nat size_bytes) [''B'', ''KB'', ''MB'', ''GB'', ''TB'']"

definition file_line :: "(rat \<Rightarrow> string) \<Rightarrow> (string \<Rightarrow> nat option) \<Rightarrow> string \<Rightarrow> string" where
  "file_line fmt2 stat file =
     (case stat file of
        Some n \<Rightarrow> ''  '' @ file @ '' ('' @ format_size fmt2 n @ '')'' @ nl
      | None \<Rightarrow> ''  '' @ file @ nl)"

fun write_similar :: "(rat \<Rightarrow> string) \<Rightarrow> (string \<times> rat) list \<Rightarrow> string list \<times> error option" where
  \<comment> \<open>\<open>for folder, score in zip(...)\<close>: the line of the similar folder is written, then
      \<open>for file in folder_map[folder]\<close> is evaluated. \<open>folder_map\<close> is neither a local of
      \<open>write_report\<close> nor a global of the module, so the first iteration raises NameError
      outside any \<open>try\<close>.\<close>
  "write_similar fmt2 [] = ([], None)"
| "write_similar fmt2 ((folder_name, score) # rest) =
     ([nl @ ''Similar Folder (similarity: '' @ fmt2 score @ ''): '' @ folder_name @ nl],
      Some NameError)"

definition write_report_group :: "(rat \<Rightarrow> string) \<Rightarrow> (string \<Rightarrow> nat option) \<Rightarrow> dup_group
    \<Rightarrow> string list \<times> error option" where
  "write_report_group fmt2 stat g =
     (case write_similar fmt2 (zip (similar_folders g) (similarity_scores g)) of
        (ws, e) \<Rightarrow>
          ([nl @ delimiter @ nl, ''Base Folder: '' @ base_folder g @ nl, ''Files:'' @ nl]
           @ map (file_line fmt2 stat) (files g) @ ws, e))"

fun write_report_groups :: "(rat \<Rightarrow> string) \<Rightarrow> (string \<Rightarrow> nat option) \<Rightarrow> dup_group list
    \<Rightarrow> string list \<times> error option" where
  "write_report_groups fmt2 stat [] = ([], None)"
| "write_report_groups fmt2 stat (g # gs) =
     (case write_report_group fmt2 stat g of
        (ws, Some e) \<Rightarrow> (ws, Some e)
      | (ws, None) \<Rightarrow>
          (case write_report_groups fmt2 stat gs of (ws', e) \<Rightarrow> (ws @ ws', e)))"

definition write_report :: "(rat \<Rightarrow> string) \<Rightarrow> (string \<Rightarrow> nat option) \<Rightarrow> dup_group list
    \<Rightarrow> string list \<times> error option" where
  \<comment> \<open>the strings written to the report, and the exception that left \<open>write_report\<close>, if any\<close>
  "write_report fmt2 stat results =
     (if results = []
      then ([''=== Potential Duplicate Media Report ==='' @ nl @ nl,
             ''No potential duplicates found.'' @ nl], None)
      else (case write_report_groups fmt2 stat results of
              (ws, e) \<Rightarrow> ((''=== Potential Duplicate Media Report ==='' @ nl @ nl) # ws, e)))"




section \<open>Properties of the path translation\<close>

lemma first_matching_none:
  "\<forall>m \<in> set ms. \<not> startswith cp (container_path m) \<Longrightarrow> first_matching cp ms = cp"
  by (induction ms) auto

lemma first_matching_some:
  assumes "\<exists>m \<in> set ms. startswith cp (container_path m)"
    and "sorted (map (\<lambda>m. - int (length (container_path m))) ms)"
  shows "\<exists>m \<in> set ms. startswith cp (container_path m)
           \<and> first_matching cp ms = apply_mapping m cp
           \<and> (\<forall>m' \<in> set ms. startswith cp (container_path m')
                  \<longrightarrow> length (container_path m') \<le> length (container_path m))"
  using assms
proof (induction ms)
  case Nil
  then show ?case by simp
next
  case (Cons a ms)
  show ?case
  proof (cases "startswith cp (container_path a)")
    case True
    have "\<forall>m' \<in> set (a # ms). length (container_path m') \<le> length (container_path a)"
      using Cons.prems(2) by auto
    with True show ?thesis by (auto simp: apply_mapping_def)
  next
    case False
    with Cons.prems have ex: "\<exists>m \<in> set ms. startswith cp (container_path m)" by auto
    have srt: "sorted (map (\<lambda>m. - int (length (container_path m))) ms)"
      using Cons.prems(2) by simp
    from Cons.IH [OF ex srt] obtain m where m: "m \<in> set ms" "startswith cp (container_path m)"
      "first_matching cp ms = apply_mapping m cp"
      "\<forall>m' \<in> set ms. startswith cp (container_path m')
          \<longrightarrow> length (container_path m') \<le> length (container_path m)"
      by blast
    with False show ?thesis by auto
  qed
qed

text \<open>
  C7. Container-to-host translation applies a mapping whose container prefix is a textual
  prefix of the input and is of maximal length among all matching mappings; a path that
  no mapping matches is returned unchanged; and with \<open>/data/tv \<rightarrow> /mnt/tv\<close> and
  \<open>/data/tv/anime \<rightarrow> /mnt/anime\<close> the path \<open>/data/tv/anime/Show\<close> becomes
  \<open>/mnt/anime/Show\<close>, whatever the order of the two mappings.
\<close>

theorem C7_most_specific_prefix:
  "((\<exists>m \<in> set ms. startswith cp (container_path m)) \<longrightarrow>
      (\<exists>m \<in> set ms. startswith cp (container_path m)
         \<and> convert_container_path_to_host_path cp ms = apply_mapping m cp
         \<and> (\<forall>m' \<in> set ms. startswith cp (container_path m')
               \<longrightarrow> length (container_path m') \<le> length (container_path m))))
   \<and> ((\<forall>m \<in> set ms. \<not> startswith cp (container_path m)) \<longrightarrow>
        convert_container_path_to_host_path cp ms = cp)
   \<and> convert_container_path_to_host_path ''/data/tv/anime/Show''
        [\<lparr>service = ''sonarr'', host_path = ''/mnt/tv'', container_path = ''/data/tv''\<rparr>,
         \<lparr>service = ''sonarr'', host_path = ''/mnt/anime'', container_path = ''/data/tv/anime''\<rparr>]
        = ''/mnt/anime/Show''
   \<and> convert_container_path_to_host_path ''/data/tv/anime/Show''
        [\<lparr>service = ''sonarr'', host_path = ''/mnt/anime'', container_path = ''/data/tv/anime''\<rparr>,
         \<lparr>service = ''sonarr'', host_path = ''/mnt/tv'', container_path = ''/data/tv''\<rparr>]
        = ''/mnt/anime/Show''"
proof (intro conjI impI)
  assume ex: "\<exists>m \<in> set ms. startswith cp (container_path m)"
  have ex': "\<exists>m \<in> set (sorted_mappings ms). startswith cp (container_path m)"
    using ex by (simp add: sorted_mappings_def)
  have srt: "sorted (map (\<lambda>m. - int (length (container_path m))) (sorted_mappings ms))"
    by (simp add: sorted_mappings_def)
  from first_matching_some [OF ex' srt]
  show "\<exists>m \<in> set ms. startswith cp (container_path m)
         \<and> convert_container_path_to_host_path cp ms = apply_mapping m cp
         \<and> (\<forall>m' \<in> set ms. startswith cp (container_path m')
               \<longrightarrow> length (container_path m') \<le> length (container_path m))"
    by (simp add: convert_container_path_to_host_path_def sorted_mappings_def)
next
  assume "\<forall>m \<in> set ms. \<not> startswith cp (container_path m)"
  then show "convert_container_path_to_host_path cp ms = cp"
    by (simp add: convert_container_path_to_host_path_def sorted_mappings_def first_matching_none)
next
  show "convert_container_path_to_host_path ''/data/tv/anime/Show''
        [\<lparr>service = ''sonarr'', host_path = ''/mnt/tv'', container_path = ''/data/tv''\<rparr>,
         \<lparr>service = ''sonarr'', host_path = ''/mnt/anime'', container_path = ''/data/tv/anime''\<rparr>]
        = ''/mnt/anime/Show''"
    by (simp add: convert_container_path_to_host_path_def sorted_mappings_def startswith_def
        endswith_def path_join_def lstrip_slash_def)
next
  show "convert_container_path_to_host_path ''/data/tv/anime/Show''
        [\<lparr>service = ''sonarr'', host_path = ''/mnt/anime'', container_path = ''/data/tv/anime''\<rparr>,
         \<lparr>service = ''sonarr'', host_path = ''/mnt/tv'', container_path = ''/data/tv''\<rparr>]
        = ''/mnt/anime/Show''"
    by (simp add: convert_container_path_to_host_path_def sorted_mappings_def startswith_def
        endswith_def path_join_def lstrip_slash_def)
qed

theorem C7_most_specific_prefix_witness:
  "(\<exists>m \<in> set [\<lparr>service = ''radarr'', host_path = ''/mnt/movies'', container_path = ''/movies''\<rparr>].
       startswith ''/movies/Heat (1995)'' (container_path m))
   \<and> convert_container_path_to_host_path ''/movies/Heat (1995)''
         [\<lparr>service = ''radarr'', host_path = ''/mnt/movies'', container_path = ''/movies''\<rparr>]
       = ''/mnt/movies/Heat (1995)''
   \<and> \<not> startswith ''/tv/Lost'' ''/movies''
   \<and> convert_container_path_to_host_path ''/tv/Lost''
         [\<lparr>service = ''radarr'', host_path = ''/mnt/movies'', container_path = ''/movies''\<rparr>]
       = ''/tv/Lost''"
  using C7_most_specific_prefix
    [of "[\<lparr>service = ''radarr'', host_path = ''/mnt/movies'', container_path = ''/movies''\<rparr>]"
        "''/movies/Heat (1995)''"]
    C7_most_specific_prefix
    [of "[\<lparr>service = ''radarr'', host_path = ''/mnt/movies'', container_path = ''/movies''\<rparr>]"
        "''/tv/Lost''"]
  by (simp add: startswith_def apply_mapping_def path_join_def endswith_def lstrip_slash_def)

section \<open>Properties of the similarity grouper\<close>

lemma scan_similar_adds:
  assumes "distinct (map fst items)"
    and "scan_similar ext fm folder1 clean1 items (processed, g) = (processed', g')"
  shows "\<exists>new. similar_folders g' = similar_folders g @ new \<and> distinct new
           \<and> set new \<subseteq> fst ` set items - processed - {folder1}
           \<and> processed' = processed \<union> set new
           \<and> base_folder g' = base_folder g"
  using assms
proof (induction items arbitrary: processed g)
  case Nil
  then show ?case by simp
next
  case (Cons it items)
  obtain folder2 clean2 where it: "it = (folder2, clean2)" by (cases it) auto
  have d: "distinct (map fst items)" and nin: "folder2 \<notin> fst ` set items"
    using Cons.prems(1) by (auto simp: it)
  show ?case
  proof (cases "folder1 \<noteq> folder2 \<and> folder2 \<notin> processed \<and> clean2 \<noteq> []
                 \<and> ratio clean1 clean2 > 9 / 10")
    case True
    define g1 where "g1 = g\<lparr>similar_folders := similar_folders g @ [folder2],
                         similarity_scores := similarity_scores g @ [ratio clean1 clean2],
                         files := (if ext then files g @ files_of fm folder2 else files g)\<rparr>"
    have step: "scan_similar ext fm folder1 clean1 items (insert folder2 processed, g1) = (processed', g')"
      using Cons.prems(2) True by (simp add: it g1_def Let_def)
    from Cons.IH [OF d step] obtain new where new:
      "similar_folders g' = similar_folders g1 @ new" "distinct new"
      "set new \<subseteq> fst ` set items - insert folder2 processed - {folder1}"
      "processed' = insert folder2 processed \<union> set new"
      "base_folder g' = base_folder g1"
      by blast
    have "similar_folders g' = similar_folders g @ (folder2 # new)"
      using new(1) by (simp add: g1_def)
    moreover have "distinct (folder2 # new)" using new(2,3) by auto
    moreover have "set (folder2 # new) \<subseteq> fst ` set (it # items) - processed - {folder1}"
      using new(3) True by (auto simp: it)
    moreover have "processed' = processed \<union> set (folder2 # new)" using new(4) by auto
    moreover have "base_folder g' = base_folder g" using new(5) by (simp add: g1_def)
    ultimately show ?thesis by blast
  next
    case False
    then have step: "scan_similar ext fm folder1 clean1 items (processed, g) = (processed', g')"
      using Cons.prems(2) by (auto simp: it Let_def split: if_splits)
    from Cons.IH [OF d step] obtain new where new:
      "similar_folders g' = similar_folders g @ new" "distinct new"
      "set new \<subseteq> fst ` set items - processed - {folder1}"
      "processed' = processed \<union> set new"
      "base_folder g' = base_folder g"
      by blast
    have "set new \<subseteq> fst ` set (it # items) - processed - {folder1}"
      using new(3) by auto
    with new show ?thesis by blast
  qed
qed

lemma group_loop_partition:
  assumes "distinct (map fst cleaned)"
    and "set (concat (map members groups)) \<subseteq> processed"
    and "distinct (concat (map members groups))"
    and "group_loop ext fm cleaned items (processed, groups) = (processed', groups')"
  shows "set (concat (map members groups')) \<subseteq> processed'
           \<and> distinct (concat (map members groups'))"
  using assms(2-)
proof (induction items arbitrary: processed groups)
  case Nil
  then show ?case by simp
next
  case (Cons it items)
  obtain folder1 clean1 where it: "it = (folder1, clean1)" by (cases it) auto
  show ?case
  proof (cases "folder1 \<in> processed \<or> clean1 = []")
    case True
    then have "group_loop ext fm cleaned items (processed, groups) = (processed', groups')"
      using Cons.prems(3) by (simp add: it)
    from Cons.IH [OF Cons.prems(1) Cons.prems(2) this] show ?thesis .
  next
    case False
    define g0 where "g0 = \<lparr>base_folder = folder1, similar_folders = [], similarity_scores = [],
                     files = files_of fm folder1\<rparr>"
    obtain p1 g1 where sc: "scan_similar ext fm folder1 clean1 cleaned (processed, g0) = (p1, g1)"
      by (cases "scan_similar ext fm folder1 clean1 cleaned (processed, g0)") auto
    from scan_similar_adds [OF assms(1) sc] obtain new where new:
      "similar_folders g1 = similar_folders g0 @ new" "distinct new"
      "set new \<subseteq> fst ` set cleaned - processed - {folder1}"
      "p1 = processed \<union> set new"
      "base_folder g1 = base_folder g0"
      by blast
    have sim: "similar_folders g1 = new" and base: "base_folder g1 = folder1"
      using new(1,5) by (simp_all add: g0_def)
    show ?thesis
    proof (cases "new = []")
      case True
      then have step: "group_loop ext fm cleaned items (p1, groups) = (processed', groups')"
        using Cons.prems(3) False sc sim by (simp add: it g0_def)
      have sub: "set (concat (map members groups)) \<subseteq> p1"
        using Cons.prems(1) new(4) by auto
      from Cons.IH [OF sub Cons.prems(2) step] show ?thesis .
    next
      case nonempty: False
      then have step: "group_loop ext fm cleaned items (insert folder1 p1, groups @ [g1])
                         = (processed', groups')"
        using Cons.prems(3) False sc sim by (simp add: it g0_def)
      have mem: "members g1 = folder1 # new" by (simp add: members_def sim base)
      have sub: "set (concat (map members (groups @ [g1]))) \<subseteq> insert folder1 p1"
        using Cons.prems(1) new(4) by (auto simp: mem)
      have dis: "distinct (concat (map members (groups @ [g1])))"
        using Cons.prems(1,2) new(2,3) False by (auto simp: mem)
      from Cons.IH [OF sub dis step] show ?thesis .
    qed
  qed
qed

lemma distinct_cleaned_folders:
  "distinct (map fst fm) \<Longrightarrow> distinct (map fst (cleaned_folders fm))"
proof -
  have "map fst (cleaned_folders fm) = map fst fm"
    by (induction fm) (auto simp: cleaned_folders_def)
  then show "distinct (map fst fm) \<Longrightarrow> distinct (map fst (cleaned_folders fm))" by simp
qed

text \<open>
  C3. Across all groups returned by the grouper, of either program, no folder name occurs
  twice in the union of base folders and similar members. The folder index is a
  dictionary, so its keys are distinct.
\<close>

theorem C3_groups_partition:
  assumes "distinct (map fst fm)"
  shows "distinct (concat (map members (find_similar_media_folders fm)))
       \<and> distinct (concat (map members (find_similar_media_folders_fd fm)))"
proof -
  have d: "distinct (map fst (cleaned_folders fm))"
    by (rule distinct_cleaned_folders [OF assms])
  have "distinct (concat (map members (snd (group_loop ext fm (cleaned_folders fm) (cleaned_folders fm) ({}, [])))))"
    for ext
  proof -
    obtain p gs where r: "group_loop ext fm (cleaned_folders fm) (cleaned_folders fm) ({}, []) = (p, gs)"
      by (cases "group_loop ext fm (cleaned_folders fm) (cleaned_folders fm) ({}, [])") auto
    from group_loop_partition [OF d _ _ r] show ?thesis by (simp add: r)
  qed
  then show ?thesis
    by (simp add: find_similar_media_folders_def find_similar_media_folders_fd_def)
qed

theorem C3_groups_partition_witness:
  "distinct (map fst [(''Moonlight'', [''/a/Moonlight/m.mkv'']),
                      (''Moonlight1'', [''/b/Moonlight1/m.mkv'']),
                      (''Sunrise'', [''/c/Sunrise/s.mkv''])])
   \<and> distinct (concat (map members (find_similar_media_folders
        [(''Moonlight'', [''/a/Moonlight/m.mkv'']),
         (''Moonlight1'', [''/b/Moonlight1/m.mkv'']),
         (''Sunrise'', [''/c/Sunrise/s.mkv''])])))
   \<and> distinct (concat (map members (find_similar_media_folders_fd
        [(''Moonlight'', [''/a/Moonlight/m.mkv'']),
         (''Moonlight1'', [''/b/Moonlight1/m.mkv'']),
         (''Sunrise'', [''/c/Sunrise/s.mkv''])])))"
proof -
  have h: "distinct (map fst [(''Moonlight'', [''/a/Moonlight/m.mkv'']),
                      (''Moonlight1'', [''/b/Moonlight1/m.mkv'']),
                      (''Sunrise'', [''/c/Sunrise/s.mkv''])])"
    by simp
  from C3_groups_partition [OF h] h show ?thesis by blast
qed

lemma scan_similar_sound:
  assumes "\<forall>(f, c) \<in> set items. c = clean_media_name f"
    and "clean1 = clean_media_name folder1" and "clean1 \<noteq> []"
    and "\<forall>m \<in> set (similar_folders g). similar_ok folder1 m"
    and "similarity_scores g = map (\<lambda>m. ratio clean1 (clean_media_name m)) (similar_folders g)"
    and "scan_similar ext fm folder1 clean1 items (processed, g) = (processed', g')"
  shows "(\<forall>m \<in> set (similar_folders g'). similar_ok folder1 m)
       \<and> similarity_scores g' = map (\<lambda>m. ratio clean1 (clean_media_name m)) (similar_folders g')"
  using assms(1,4-)
proof (induction items arbitrary: processed g)
  case Nil
  then show ?case by simp
next
  case (Cons it items)
  obtain folder2 clean2 where it: "it = (folder2, clean2)" by (cases it) auto
  have c2: "clean2 = clean_media_name folder2" using Cons.prems(1) by (simp add: it)
  have rest: "\<forall>(f, c) \<in> set items. c = clean_media_name f" using Cons.prems(1) by simp
  show ?case
  proof (cases "folder1 \<noteq> folder2 \<and> folder2 \<notin> processed \<and> clean2 \<noteq> []
                 \<and> ratio clean1 clean2 > 9 / 10")
    case True
    define g1 where "g1 = g\<lparr>similar_folders := similar_folders g @ [folder2],
                         similarity_scores := similarity_scores g @ [ratio clean1 clean2],
                         files := (if ext then files g @ files_of fm folder2 else files g)\<rparr>"
    have step: "scan_similar ext fm folder1 clean1 items (insert folder2 processed, g1) = (processed', g')"
      using Cons.prems(4) True by (simp add: it g1_def Let_def)
    have ok: "\<forall>m \<in> set (similar_folders g1). similar_ok folder1 m"
      using Cons.prems(2) True assms(2,3) c2 by (auto simp: g1_def similar_ok_def)
    have sc: "similarity_scores g1 = map (\<lambda>m. ratio clean1 (clean_media_name m)) (similar_folders g1)"
      using Cons.prems(3) c2 by (simp add: g1_def)
    from Cons.IH [OF rest ok sc step] show ?thesis .
  next
    case False
    then have step: "scan_similar ext fm folder1 clean1 items (processed, g) = (processed', g')"
      using Cons.prems(4) by (auto simp: it Let_def split: if_splits)
    from Cons.IH [OF rest Cons.prems(2) Cons.prems(3) step] show ?thesis .
  qed
qed

lemma group_loop_sound:
  assumes "\<forall>(f, c) \<in> set cleaned. c = clean_media_name f"
    and "distinct (map fst cleaned)"
    and "\<forall>(f, c) \<in> set items. c = clean_media_name f"
    and "\<forall>g \<in> set groups. group_ok g"
    and "group_loop ext fm cleaned items (processed, groups) = (processed', groups')"
  shows "\<forall>g \<in> set groups'. group_ok g"
  using assms(3-)
proof (induction items arbitrary: processed groups)
  case Nil
  then show ?case by simp
next
  case (Cons it items)
  obtain folder1 clean1 where it: "it = (folder1, clean1)" by (cases it) auto
  have c1: "clean1 = clean_media_name folder1" using Cons.prems(1) by (simp add: it)
  have rest: "\<forall>(f, c) \<in> set items. c = clean_media_name f" using Cons.prems(1) by simp
  show ?case
  proof (cases "folder1 \<in> processed \<or> clean1 = []")
    case True
    then have "group_loop ext fm cleaned items (processed, groups) = (processed', groups')"
      using Cons.prems(3) by (simp add: it)
    from Cons.IH [OF rest Cons.prems(2) this] show ?thesis .
  next
    case False
    define g0 where "g0 = \<lparr>base_folder = folder1, similar_folders = [], similarity_scores = [],
                     files = files_of fm folder1\<rparr>"
    obtain p1 g1 where sc: "scan_similar ext fm folder1 clean1 cleaned (processed, g0) = (p1, g1)"
      by (cases "scan_similar ext fm folder1 clean1 cleaned (processed, g0)") auto
    have ne: "clean1 \<noteq> []" using False by simp
    have snd: "(\<forall>m \<in> set (similar_folders g1). similar_ok folder1 m)
       \<and> similarity_scores g1 = map (\<lambda>m. ratio clean1 (clean_media_name m)) (similar_folders g1)"
      by (rule scan_similar_sound [OF assms(1) c1 ne _ _ sc]) (simp_all add: g0_def)
    from scan_similar_adds [OF assms(2) sc] have base: "base_folder g1 = folder1"
      by (auto simp: g0_def)
    show ?thesis
    proof (cases "similar_folders g1 = []")
      case True
      then have step: "group_loop ext fm cleaned items (p1, groups) = (processed', groups')"
        using Cons.prems(3) False sc by (simp add: it g0_def)
      from Cons.IH [OF rest Cons.prems(2) step] show ?thesis .
    next
      case nonempty: False
      then have step: "group_loop ext fm cleaned items (insert folder1 p1, groups @ [g1])
                         = (processed', groups')"
        using Cons.prems(3) False sc by (simp add: it g0_def)
      have "group_ok g1" using snd base nonempty c1 by (simp add: group_ok_def)
      then have ok: "\<forall>g \<in> set (groups @ [g1]). group_ok g" using Cons.prems(2) by simp
      from Cons.IH [OF rest ok step] show ?thesis .
    qed
  qed
qed

lemma cleaned_folders_keys:
  "\<forall>(f, c) \<in> set (cleaned_folders fm). c = clean_media_name f"
  by (auto simp: cleaned_folders_def)

lemma scan_similar_complete:
  assumes "distinct (map fst items)"
    and "(folder2, clean2) \<in> set items"
    and "folder2 \<notin> processed" and "folder1 \<noteq> folder2" and "clean2 \<noteq> []"
    and "ratio clean1 clean2 > 9 / 10"
    and "scan_similar ext fm folder1 clean1 items (processed, g) = (processed', g')"
  shows "folder2 \<in> set (similar_folders g')"
  using assms(1,2,3,7)
proof (induction items arbitrary: processed g)
  case Nil
  then show ?case by simp
next
  case (Cons it items)
  obtain f c where it: "it = (f, c)" by (cases it) auto
  have d: "distinct (map fst items)" using Cons.prems(1) by simp
  show ?case
  proof (cases "f = folder2")
    case True
    then have "c = clean2" using Cons.prems(1,2) by (force simp: it)
    with True have hd: "it = (folder2, clean2)" by (simp add: it)
    define g1 where "g1 = g\<lparr>similar_folders := similar_folders g @ [folder2],
                         similarity_scores := similarity_scores g @ [ratio clean1 clean2],
                         files := (if ext then files g @ files_of fm folder2 else files g)\<rparr>"
    have step: "scan_similar ext fm folder1 clean1 items (insert folder2 processed, g1) = (processed', g')"
      using Cons.prems(4) Cons.prems(3) assms(4,5,6) by (simp add: hd g1_def Let_def)
    from scan_similar_adds [OF d step] obtain new where
      "similar_folders g' = similar_folders g1 @ new" by blast
    then show ?thesis by (simp add: g1_def)
  next
    case False
    then have mem: "(folder2, clean2) \<in> set items" using Cons.prems(2) by (simp add: it)
    obtain p1 g1 where step: "scan_similar ext fm folder1 clean1 items (p1, g1) = (processed', g')"
      and p1: "p1 = processed \<or> p1 = insert f processed"
      using Cons.prems(4) by (auto simp: it Let_def split: if_splits)
    have "folder2 \<notin> p1" using p1 False Cons.prems(3) by auto
    from Cons.IH [OF d mem this step] show ?thesis .
  qed
qed

lemma group_loop_keeps:
  "group_loop ext fm cleaned items (processed, groups) = (processed', groups') \<Longrightarrow>
   set groups \<subseteq> set groups'"
proof (induction items arbitrary: processed groups)
  case Nil
  then show ?case by simp
next
  case (Cons it items)
  obtain folder1 clean1 where it: "it = (folder1, clean1)" by (cases it) auto
  have "\<exists>p1 gs1. group_loop ext fm cleaned items (p1, gs1) = (processed', groups')
           \<and> set groups \<subseteq> set gs1"
    using Cons.prems by (fastforce simp: it split: if_splits prod.splits)
  then obtain p1 gs1 where
    step: "group_loop ext fm cleaned items (p1, gs1) = (processed', groups')"
    and sub: "set groups \<subseteq> set gs1"
    by blast
  from Cons.IH [OF step] sub show ?case by blast
qed

lemma group_loop_step_groups:
  assumes "distinct (map fst cleaned)"
    and "(folder2, clean2) \<in> set cleaned"
    and "folder1 \<notin> processed" and "clean1 \<noteq> []"
    and "folder2 \<notin> processed" and "folder1 \<noteq> folder2" and "clean2 \<noteq> []"
    and "ratio clean1 clean2 > 9 / 10"
  shows "\<exists>g \<in> set (snd (group_loop ext fm cleaned ((folder1, clean1) # rest) (processed, groups))).
           base_folder g = folder1 \<and> folder2 \<in> set (similar_folders g)"
proof -
  define g0 where "g0 = \<lparr>base_folder = folder1, similar_folders = [], similarity_scores = [],
                     files = files_of fm folder1\<rparr>"
  obtain p1 g1 where sc: "scan_similar ext fm folder1 clean1 cleaned (processed, g0) = (p1, g1)"
    by (cases "scan_similar ext fm folder1 clean1 cleaned (processed, g0)") auto
  have in1: "folder2 \<in> set (similar_folders g1)"
    by (rule scan_similar_complete [OF assms(1,2,5,6,7,8) sc])
  from scan_similar_adds [OF assms(1) sc] have base: "base_folder g1 = folder1"
    by (auto simp: g0_def)
  obtain p2 gs2 where r: "group_loop ext fm cleaned rest (insert folder1 p1, groups @ [g1]) = (p2, gs2)"
    by (cases "group_loop ext fm cleaned rest (insert folder1 p1, groups @ [g1])") auto
  have "g1 \<in> set gs2" using group_loop_keeps [OF r] by auto
  moreover have "group_loop ext fm cleaned ((folder1, clean1) # rest) (processed, groups) = (p2, gs2)"
    using assms(3,4) sc in1 r by (auto simp: g0_def)
  ultimately show ?thesis using in1 base by auto
qed

lemma clean_moonlight:
  "clean_media_name ''Moonlight'' = ''moonlight''"
  "clean_media_name ''Moonlight1'' = ''moonlight1''"
  "clean_media_name ''Moonlight2'' = ''moonlight2''"
  by code_simp+

lemma ratio_moonlight:
  "ratio ''moonlight'' ''moonlight1'' = 18 / 19"
  "ratio ''moonlight'' ''moonlight2'' = 18 / 19"
  "ratio ''moonlight1'' ''moonlight2'' = 9 / 10"
  by code_simp+

text \<open>
  C4 (as amended). The threshold is applied between the base folder's key and the
  candidate's key, in that order: every similar member of every group differs from the
  base, both keys are non-empty, and the ratio of the base's key to the member's key is
  strictly greater than nine tenths, so a ratio of exactly 0.9 to the base never admits a
  member. Conversely, when the outer loop reaches a folder with a non-empty key while it
  and another folder with a non-empty key are both unprocessed and the ratio exceeds 0.9,
  the two are grouped; in particular this holds for the first folder of the index. Two
  similar members of one group are not compared with each other.
\<close>

theorem C4_threshold_is_base_to_member:
  assumes "distinct (map fst fm)"
  shows "(\<forall>g \<in> set (find_similar_media_folders fm) \<union> set (find_similar_media_folders_fd fm).
           \<forall>m \<in> set (similar_folders g).
             m \<noteq> base_folder g
             \<and> clean_media_name (base_folder g) \<noteq> [] \<and> clean_media_name m \<noteq> []
             \<and> ratio (clean_media_name (base_folder g)) (clean_media_name m) > 9 / 10)
       \<and> (distinct (map fst cleaned) \<and> (folder2, clean_name2) \<in> set cleaned
            \<and> folder1 \<notin> processed \<and> folder2 \<notin> processed \<and> folder1 \<noteq> folder2
            \<and> clean_name1 \<noteq> [] \<and> clean_name2 \<noteq> []
            \<and> ratio clean_name1 clean_name2 > 9 / 10
          \<longrightarrow> (\<exists>g \<in> set (snd (group_loop ext fm cleaned ((folder1, clean_name1) # rest)
                                   (processed, groups))).
                 base_folder g = folder1 \<and> folder2 \<in> set (similar_folders g)))
       \<and> (fm = (folder1, fs) # others \<and> folder2 \<in> fst ` set others
            \<and> clean_media_name folder1 \<noteq> [] \<and> clean_media_name folder2 \<noteq> []
            \<and> ratio (clean_media_name folder1) (clean_media_name folder2) > 9 / 10
          \<longrightarrow> (\<exists>g \<in> set (find_similar_media_folders fm).
                 base_folder g = folder1 \<and> folder2 \<in> set (similar_folders g))
              \<and> (\<exists>g \<in> set (find_similar_media_folders_fd fm).
                 base_folder g = folder1 \<and> folder2 \<in> set (similar_folders g)))"
proof (intro conjI impI)
  have d: "distinct (map fst (cleaned_folders fm))"
    by (rule distinct_cleaned_folders [OF assms])
  have ok: "\<forall>g \<in> set (snd (group_loop e fm (cleaned_folders fm) (cleaned_folders fm) ({}, []))).
              group_ok g" for e
  proof -
    obtain p gs where r: "group_loop e fm (cleaned_folders fm) (cleaned_folders fm) ({}, []) = (p, gs)"
      by (cases "group_loop e fm (cleaned_folders fm) (cleaned_folders fm) ({}, [])") auto
    have "\<forall>g \<in> set gs. group_ok g"
      by (rule group_loop_sound [OF cleaned_folders_keys d cleaned_folders_keys _ r]) simp
    then show ?thesis by (simp add: r)
  qed
  show "\<forall>g \<in> set (find_similar_media_folders fm) \<union> set (find_similar_media_folders_fd fm).
           \<forall>m \<in> set (similar_folders g).
             m \<noteq> base_folder g
             \<and> clean_media_name (base_folder g) \<noteq> [] \<and> clean_media_name m \<noteq> []
             \<and> ratio (clean_media_name (base_folder g)) (clean_media_name m) > 9 / 10"
    using ok [of True] ok [of False]
    by (auto simp: find_similar_media_folders_def find_similar_media_folders_fd_def
        group_ok_def similar_ok_def)
next
  assume "distinct (map fst cleaned) \<and> (folder2, clean_name2) \<in> set cleaned
            \<and> folder1 \<notin> processed \<and> folder2 \<notin> processed \<and> folder1 \<noteq> folder2
            \<and> clean_name1 \<noteq> [] \<and> clean_name2 \<noteq> []
            \<and> ratio clean_name1 clean_name2 > 9 / 10"
  then show "\<exists>g \<in> set (snd (group_loop ext fm cleaned ((folder1, clean_name1) # rest)
                                   (processed, groups))).
                 base_folder g = folder1 \<and> folder2 \<in> set (similar_folders g)"
    using group_loop_step_groups [of cleaned folder2 clean_name2 folder1 processed clean_name1]
    by blast
next
  assume a: "fm = (folder1, fs) # others \<and> folder2 \<in> fst ` set others
            \<and> clean_media_name folder1 \<noteq> [] \<and> clean_media_name folder2 \<noteq> []
            \<and> ratio (clean_media_name folder1) (clean_media_name folder2) > 9 / 10"
  have d: "distinct (map fst (cleaned_folders fm))"
    by (rule distinct_cleaned_folders [OF assms])
  have ne: "folder1 \<noteq> folder2" using a assms by auto
  have hd: "cleaned_folders fm = (folder1, clean_media_name folder1) # cleaned_folders others"
    using a by (simp add: cleaned_folders_def)
  have mem: "(folder2, clean_media_name folder2) \<in> set (cleaned_folders fm)"
    using a by (auto simp: cleaned_folders_def)
  have "\<exists>g \<in> set (snd (group_loop e fm (cleaned_folders fm)
                  ((folder1, clean_media_name folder1) # cleaned_folders others) ({}, []))).
           base_folder g = folder1 \<and> folder2 \<in> set (similar_folders g)" for e
    by (rule group_loop_step_groups [OF d mem _ _ _ ne]) (use a in simp_all)
  then have both: "(\<exists>g \<in> set (find_similar_media_folders fm).
                 base_folder g = folder1 \<and> folder2 \<in> set (similar_folders g))
              \<and> (\<exists>g \<in> set (find_similar_media_folders_fd fm).
                 base_folder g = folder1 \<and> folder2 \<in> set (similar_folders g))"
    by (simp add: find_similar_media_folders_def find_similar_media_folders_fd_def hd)
  from both show "\<exists>g \<in> set (find_similar_media_folders fm).
                 base_folder g = folder1 \<and> folder2 \<in> set (similar_folders g)" by blast
  from both show "\<exists>g \<in> set (find_similar_media_folders_fd fm).
                 base_folder g = folder1 \<and> folder2 \<in> set (similar_folders g)" by blast
qed

theorem C4_threshold_is_base_to_member_witness:
  "distinct (map fst [(''Moonlight'', [''/a/Moonlight/m.mkv'']),
                      (''Moonlight1'', [''/b/Moonlight1/m.mkv''])])
   \<and> ratio (clean_media_name ''Moonlight'') (clean_media_name ''Moonlight1'') > 9 / 10
   \<and> (\<exists>g \<in> set (find_similar_media_folders
                   [(''Moonlight'', [''/a/Moonlight/m.mkv'']),
                    (''Moonlight1'', [''/b/Moonlight1/m.mkv''])]).
         base_folder g = ''Moonlight'' \<and> ''Moonlight1'' \<in> set (similar_folders g)
         \<and> (\<forall>m \<in> set (similar_folders g).
               ratio (clean_media_name (base_folder g)) (clean_media_name m) > 9 / 10))"
proof -
  let ?fm = "[(''Moonlight'', [''/a/Moonlight/m.mkv'']), (''Moonlight1'', [''/b/Moonlight1/m.mkv''])]"
  have h: "distinct (map fst ?fm)" by simp
  have r: "ratio (clean_media_name ''Moonlight'') (clean_media_name ''Moonlight1'') > 9 / 10"
    by (simp add: clean_moonlight ratio_moonlight)
  have c: "clean_media_name ''Moonlight'' \<noteq> []" "clean_media_name ''Moonlight1'' \<noteq> []"
    by (simp_all add: clean_moonlight)
  note t = C4_threshold_is_base_to_member [OF h, where ?folder1.0 = "''Moonlight''"
      and fs = "[''/a/Moonlight/m.mkv'']"
      and others = "[(''Moonlight1'', [''/b/Moonlight1/m.mkv''])]"
      and ?folder2.0 = "''Moonlight1''"]
  from t have all: "\<forall>g \<in> set (find_similar_media_folders ?fm).
           \<forall>m \<in> set (similar_folders g).
             ratio (clean_media_name (base_folder g)) (clean_media_name m) > 9 / 10"
    by blast
  from t r c have "\<exists>g \<in> set (find_similar_media_folders ?fm).
                 base_folder g = ''Moonlight'' \<and> ''Moonlight1'' \<in> set (similar_folders g)"
    by simp
  with all h r show ?thesis by blast
qed

text \<open>
  C4 as stated fails: \<open>Moonlight1\<close> and \<open>Moonlight2\<close> are distinct names with non-empty
  keys whose ratio is exactly 0.9 in both directions, and they are placed in the same
  group, both being similar to the base \<open>Moonlight\<close>.
\<close>

theorem C4_same_group_pair_at_threshold:
  "find_similar_media_folders
     [(''Moonlight'', [''/a/Moonlight/m.mkv'']),
      (''Moonlight1'', [''/b/Moonlight1/m.mkv'']),
      (''Moonlight2'', [''/c/Moonlight2/m.mkv''])]
   = [\<lparr>base_folder = ''Moonlight'',
       similar_folders = [''Moonlight1'', ''Moonlight2''],
       similarity_scores = [18 / 19, 18 / 19],
       files = [''/a/Moonlight/m.mkv'', ''/b/Moonlight1/m.mkv'', ''/c/Moonlight2/m.mkv'']\<rparr>]
   \<and> clean_media_name ''Moonlight1'' = ''moonlight1''
   \<and> clean_media_name ''Moonlight2'' = ''moonlight2''
   \<and> ratio ''moonlight1'' ''moonlight2'' = 9 / 10
   \<and> ratio ''moonlight2'' ''moonlight1'' = 9 / 10"
  by code_simp


section \<open>Properties of the name normalizer\<close>

lemma re_sub_no_occurrence:
  "\<not> occurs_from p prev s \<Longrightarrow> re_sub p prev s = s"
proof (induction s arbitrary: prev)
  case Nil
  then show ?case by simp
next
  case (Cons x xs)
  then show ?case by (auto split: option.splits nat.splits)
qed

lemma fold_re_sub_no_occurrence:
  "\<forall>p \<in> set ps. \<not> occurs_from p None s \<Longrightarrow> fold (\<lambda>p n. re_sub p None n) ps s = s"
  by (induction ps) (simp_all add: re_sub_no_occurrence)

lemma strip_tokens_no_token: "\<not> has_token s \<Longrightarrow> strip_tokens s = s"
  by (simp add: has_token_def strip_tokens_def re_sub_no_occurrence fold_re_sub_no_occurrence)

lemma lower_char_cases:
  "lower_char c = c \<or> (c \<in> set upper_letters \<and> lower_char c \<in> set lower_letters)"
  by (auto simp: lower_char_def upper_letters_def lower_letters_def split: option.splits if_splits)

lemma lower_char_not_upper: "c \<notin> set upper_letters \<Longrightarrow> lower_char c = c"
proof -
  assume "c \<notin> set upper_letters"
  moreover have "length upper_letters = length lower_letters"
    by (simp add: upper_letters_def lower_letters_def)
  ultimately have "map_of (zip upper_letters lower_letters) c = None"
    by (simp add: map_of_zip_is_None)
  then show ?thesis by (simp add: lower_char_def)
qed

lemma lower_not_upper: "d \<in> set lower_letters \<Longrightarrow> d \<notin> set upper_letters"
  by (auto simp: upper_letters_def lower_letters_def)

lemma lower_char_idem: "lower_char (lower_char c) = lower_char c"
proof (cases "lower_char c = c")
  case True
  then show ?thesis by simp
next
  case False
  with lower_char_cases [of c] have "lower_char c \<in> set lower_letters" by blast
  then show ?thesis by (intro lower_char_not_upper lower_not_upper)
qed

lemma lower_char_space: "is_space (lower_char c) = is_space c"
proof -
  have "d \<in> set lower_letters \<Longrightarrow> \<not> is_space d" for d
    by (auto simp: is_space_def whitespace_chars_def lower_letters_def)
  moreover have "d \<in> set upper_letters \<Longrightarrow> \<not> is_space d" for d
    by (auto simp: is_space_def whitespace_chars_def upper_letters_def)
  ultimately show ?thesis using lower_char_cases [of c] by auto
qed

lemma lower_char_sep: "lower_char c \<in> set sep_chars \<longleftrightarrow> c \<in> set sep_chars"
proof -
  have "d \<in> set lower_letters \<Longrightarrow> d \<notin> set sep_chars" for d
    by (auto simp: lower_letters_def sep_chars_def)
  moreover have "d \<in> set upper_letters \<Longrightarrow> d \<notin> set sep_chars" for d
    by (auto simp: upper_letters_def sep_chars_def)
  ultimately show ?thesis using lower_char_cases [of c] by auto
qed

lemma blank_not_sep: "CHR '' '' \<notin> set sep_chars"
  by (simp add: sep_chars_def)

lemma lower_blank: "lower_char (CHR '' '') = CHR '' ''"
  by (simp add: lower_char_def upper_letters_def lower_letters_def)

lemma blank_is_space: "is_space (CHR '' '')"
  by (simp add: is_space_def whitespace_chars_def)

lemma split_acc_good:
  "(\<forall>c \<in> set cur. \<not> is_space c) \<Longrightarrow> good_words (split_acc cur s)"
proof (induction s arbitrary: cur)
  case Nil
  then show ?case by (simp add: good_words_def)
next
  case (Cons x xs)
  show ?case
  proof (cases "is_space x")
    case True
    have g: "good_words (split_acc [] xs)" by (rule Cons.IH) simp
    show ?thesis
    proof (cases "cur = []")
      case True
      with \<open>is_space x\<close> g show ?thesis by simp
    next
      case False
      with \<open>is_space x\<close> g Cons.prems show ?thesis by (simp add: good_words_def)
    qed
  next
    case False
    have "good_words (split_acc (cur @ [x]) xs)"
      by (rule Cons.IH) (use False Cons.prems in simp)
    with False show ?thesis by simp
  qed
qed

lemma split_acc_chars:
  "w \<in> set (split_acc cur s) \<Longrightarrow> set w \<subseteq> set cur \<union> set s"
  by (induction cur s rule: split_acc.induct) (auto split: if_splits)

lemma split_acc_word:
  "\<forall>c \<in> set w. \<not> is_space c \<Longrightarrow> split_acc cur (w @ s) = split_acc (cur @ w) s"
  by (induction w arbitrary: cur) simp_all

lemma split_ws_join:
  "good_words ws \<Longrightarrow> split_ws (join_with '' '' ws) = ws"
proof (induction "'' ''" ws rule: join_with.induct)
  case 1
  then show ?case by (simp add: split_ws_def)
next
  case (2 w)
  then have "split_acc [] (w @ []) = split_acc ([] @ w) []"
    by (intro split_acc_word) (simp add: good_words_def)
  with 2 show ?case by (simp add: split_ws_def good_words_def)
next
  case (3 w v ws)
  have w: "\<forall>c \<in> set w. \<not> is_space c" "w \<noteq> []" using 3(2) by (simp_all add: good_words_def)
  have rest: "good_words (v # ws)" using 3(2) by (simp add: good_words_def)
  have "split_acc [] (w @ '' '' @ join_with '' '' (v # ws))
      = split_acc ([] @ w) ('' '' @ join_with '' '' (v # ws))"
    by (rule split_acc_word [OF w(1)])
  also have "\<dots> = w # split_acc [] (join_with '' '' (v # ws))"
    using w(2) blank_is_space by simp
  finally show ?case using 3(1) [OF rest] by (simp add: split_ws_def)
qed

lemma lower_join: "lower (join_with '' '' ws) = join_with '' '' (map lower ws)"
  by (induction "'' ''" ws rule: join_with.induct) (simp_all add: lower_def lower_blank)

lemma good_words_lower: "good_words ws \<Longrightarrow> good_words (map lower ws)"
  by (auto simp: good_words_def lower_def lower_char_space)

lemma join_hd: "good_words ws \<Longrightarrow> ws \<noteq> [] \<Longrightarrow> join_with sep ws \<noteq> [] \<and> hd (join_with sep ws) = hd (hd ws)"
  by (induction sep ws rule: join_with.induct) (auto simp: good_words_def)

lemma join_last: "good_words ws \<Longrightarrow> ws \<noteq> [] \<Longrightarrow> last (join_with sep ws) = last (last ws)"
proof (induction sep ws rule: join_with.induct)
  case (3 sep w v ws)
  have g: "good_words (v # ws)" using 3(2) by (simp add: good_words_def)
  have "join_with sep (v # ws) \<noteq> []" using join_hd [OF g] by simp
  then show ?case using 3(1) [OF g] by simp
qed simp_all

lemma strip_id:
  assumes "s \<noteq> []" "\<not> is_space (hd s)" "\<not> is_space (last s)"
  shows "strip s = s"
proof -
  have a: "dropWhile is_space s = s" using assms(1,2) by (cases s) auto
  have "rev s \<noteq> []" "\<not> is_space (hd (rev s))" using assms(1,3) by (simp_all add: hd_rev)
  then have "dropWhile is_space (rev s) = rev s" by (cases "rev s") auto
  with a show ?thesis by (simp add: strip_def)
qed

lemma strip_join: "good_words ws \<Longrightarrow> strip (join_with '' '' ws) = join_with '' '' ws"
proof (cases "ws = []")
  case True
  then show ?thesis by (simp add: strip_def)
next
  case False
  assume g: "good_words ws"
  have h: "hd ws \<in> set ws" "last ws \<in> set ws" using False by simp_all
  have "hd ws \<noteq> []" "last ws \<noteq> []" using g h by (auto simp: good_words_def)
  then have "hd (hd ws) \<in> set (hd ws)" "last (last ws) \<in> set (last ws)" by simp_all
  then have "\<not> is_space (hd (hd ws))" "\<not> is_space (last (last ws))"
    using g h by (auto simp: good_words_def)
  then show ?thesis
    using join_hd [OF g False, of "'' ''"] join_last [OF g False, of "'' ''"]
    by (intro strip_id) simp_all
qed

lemma normalize_spacing_words:
  "normalize_spacing name = join_with '' '' (map lower (split_ws (separators_to_spaces name)))"
proof -
  have g: "good_words (split_ws (separators_to_spaces name))"
    by (simp add: split_ws_def split_acc_good)
  show ?thesis
    by (simp add: normalize_spacing_def lower_join strip_join good_words_lower [OF g])
qed

lemma join_chars: "set (join_with '' '' ws) \<subseteq> insert (CHR '' '') (\<Union> (set ` set ws))"
  by (induction "'' ''" ws rule: join_with.induct) auto

lemma split_ws_no_sep:
  assumes "w \<in> set (split_ws (separators_to_spaces name))" and "c \<in> set w"
  shows "c \<notin> set sep_chars"
proof -
  have "set w \<subseteq> set (separators_to_spaces name)"
    using split_acc_chars [of w "[]" "separators_to_spaces name"] assms(1)
    by (simp add: split_ws_def)
  with assms(2) have "c \<in> set (separators_to_spaces name)" by blast
  then have "\<exists>d. c = (if d \<in> set sep_chars then CHR '' '' else d)"
    unfolding separators_to_spaces_def by (simp only: set_map) blast
  then obtain d where "c = (if d \<in> set sep_chars then CHR '' '' else d)" by blast
  then show ?thesis using blank_not_sep by (cases "d \<in> set sep_chars") simp_all
qed

lemma separators_to_spaces_id:
  "\<forall>c \<in> set s. c \<notin> set sep_chars \<Longrightarrow> separators_to_spaces s = s"
  by (induction s) (simp_all add: separators_to_spaces_def)

lemma normalize_spacing_idem:
  "normalize_spacing (normalize_spacing name) = normalize_spacing name"
proof -
  define ws where "ws = map lower (split_ws (separators_to_spaces name))"
  have g0: "good_words (split_ws (separators_to_spaces name))"
    by (simp add: split_ws_def split_acc_good)
  have g: "good_words ws" unfolding ws_def by (rule good_words_lower [OF g0])
  have nosep: "c \<notin> set sep_chars" if "w \<in> set ws" "c \<in> set w" for w c
  proof -
    from that(1) obtain v where v: "v \<in> set (split_ws (separators_to_spaces name))" "w = lower v"
      by (auto simp: ws_def)
    from that(2) v(2) obtain d where d: "d \<in> set v" "c = lower_char d"
      by (auto simp: lower_def)
    from split_ws_no_sep [OF v(1) d(1)] show ?thesis by (simp add: d(2) lower_char_sep)
  qed
  have "c \<notin> set sep_chars" if "c \<in> set (join_with '' '' ws)" for c
  proof -
    from that join_chars [of ws] have "c = CHR '' '' \<or> (\<exists>w \<in> set ws. c \<in> set w)" by blast
    then show ?thesis using nosep blank_not_sep by blast
  qed
  then have seps: "separators_to_spaces (join_with '' '' ws) = join_with '' '' ws"
    by (intro separators_to_spaces_id) blast
  have low: "map lower ws = ws"
    unfolding ws_def lower_def by (simp add: lower_char_idem)
  have "normalize_spacing (join_with '' '' ws)
      = join_with '' '' (map lower (split_ws (join_with '' '' ws)))"
    by (simp only: normalize_spacing_words seps)
  also have "\<dots> = join_with '' '' ws" by (simp only: split_ws_join [OF g] low)
  finally show ?thesis by (simp only: normalize_spacing_words ws_def)
qed

text \<open>
  C5 (as amended). The separator, white-space and case normalisation is idempotent, and
  the normalizer is idempotent on every input whose normalized key contains no year token
  and no token of the removal list: the substitutions run once each, in a fixed order, so
  a token that the first pass leaves behind or creates is removed only by a second pass.
\<close>

theorem C5_idempotent_without_tokens:
  "normalize_spacing (normalize_spacing x) = normalize_spacing x
   \<and> (\<not> has_token (clean_media_name x)
        \<longrightarrow> clean_media_name (clean_media_name x) = clean_media_name x)"
  by (simp add: normalize_spacing_idem clean_media_name_def strip_tokens_no_token)

theorem C5_idempotent_without_tokens_witness:
  "\<not> has_token (clean_media_name ''The.Movie.2020.1080p.BluRay-GRP'')
   \<and> clean_media_name ''The.Movie.2020.1080p.BluRay-GRP'' = ''the movie''
   \<and> clean_media_name (clean_media_name ''The.Movie.2020.1080p.BluRay-GRP'')
       = clean_media_name ''The.Movie.2020.1080p.BluRay-GRP''"
proof -
  have c: "clean_media_name ''The.Movie.2020.1080p.BluRay-GRP'' = ''the movie''"
    by code_simp
  have nt: "\<not> has_token ''the movie''" by code_simp
  have h: "\<not> has_token (clean_media_name ''The.Movie.2020.1080p.BluRay-GRP'')"
    unfolding c by (rule nt)
  from C5_idempotent_without_tokens [of "''The.Movie.2020.1080p.BluRay-GRP''"] h c
  show ?thesis by blast
qed

text \<open>
  C5 as stated fails: the underscores of \<open>Justice_League_DC\<close> are word characters, so
  \<open>\bdc\b\<close> does not match in the first pass; it matches once they have become spaces.
  Likewise \<open>ddvv\<close> loses its inner \<open>dv\<close> and becomes \<open>dv\<close>, which a second pass empties.
\<close>

theorem C5_not_idempotent:
  "clean_media_name ''Justice_League_DC'' = ''justice league dc''
   \<and> clean_media_name (clean_media_name ''Justice_League_DC'') = ''justice league''
   \<and> clean_media_name ''ddvv'' = ''dv''
   \<and> clean_media_name (clean_media_name ''ddvv'') = []"
  by code_simp

section \<open>Properties of the official-path matcher\<close>

lemma is_protected_path_iff:
  "is_protected_path roots path \<longleftrightarrow>
     (\<exists>root_folder \<in> set roots. path = root_folder \<or> startswith path (root_folder @ ''/''))
     \<and> lower (basename path) \<in> set main_media_names"
  by (induction roots) auto

lemma lookup_records_results:
  "r \<in> set (lookup_records st recs) \<Longrightarrow>
     (\<forall>p \<in> set (duplicate_paths r). \<not> is_protected_path (root_folders_to_ignore st) p)
     \<and> official r = get_official_path_for_folder st (folder r) (duplicate_paths r)"
proof (induction recs)
  case Nil
  then show ?case by simp
next
  case (Cons rec0 recs)
  then show ?case
    by (auto simp: Let_def unprotected_def split: if_splits option.splits)
qed

text \<open>
  C1. A candidate path that is equal to a protected root or nested under one, and whose
  own basename, lower-cased, is one of \<open>films\<close>, \<open>movies\<close>, \<open>television\<close>, \<open>tv\<close>,
  \<open>videos\<close>, is protected; it is in the duplicate-path list of no result, and the
  matching tiers of every result ran on the list from which it had been removed.
\<close>

theorem C1_protected_path_excluded:
  "(\<exists>root_folder \<in> set (root_folders_to_ignore st).
        path = root_folder \<or> startswith path (root_folder @ ''/''))
     \<and> lower (basename path) \<in> set [''films'', ''movies'', ''television'', ''tv'', ''videos'']
   \<longrightarrow> is_protected_path (root_folders_to_ignore st) path
       \<and> (\<forall>r \<in> set (lookup_duplicate_folders st content).
             path \<notin> set (duplicate_paths r)
             \<and> official r = get_official_path_for_folder st (folder r) (duplicate_paths r))"
proof
  assume a: "(\<exists>root_folder \<in> set (root_folders_to_ignore st).
        path = root_folder \<or> startswith path (root_folder @ ''/''))
     \<and> lower (basename path) \<in> set [''films'', ''movies'', ''television'', ''tv'', ''videos'']"
  then have p: "is_protected_path (root_folders_to_ignore st) path"
    by (simp only: is_protected_path_iff main_media_names_def) 
  have "path \<notin> set (duplicate_paths r)
        \<and> official r = get_official_path_for_folder st (folder r) (duplicate_paths r)"
    if "r \<in> set (lookup_duplicate_folders st content)" for r
    using lookup_records_results [of r st "split_on delimiter [] content"] that p
    by (auto simp: lookup_duplicate_folders_def)
  with p show "is_protected_path (root_folders_to_ignore st) path
       \<and> (\<forall>r \<in> set (lookup_duplicate_folders st content).
             path \<notin> set (duplicate_paths r)
             \<and> official r = get_official_path_for_folder st (folder r) (duplicate_paths r))"
    by blast
qed

theorem C1_protected_path_excluded_witness:
  "lower (basename ''/media/Movies'') = ''movies''
   \<and> is_protected_path (root_folders_to_ignore example_state) ''/media/Movies''
   \<and> path_matches AtStart (''Folder: Heat'' @ [CHR 0x0A] @ ''  /media/Movies'' @ [CHR 0x0A]
         @ ''  /backup/Heat (1995)'' @ [CHR 0x0A])
       = [''/media/Movies'', ''/backup/Heat (1995)'']
   \<and> map duplicate_paths (lookup_duplicate_folders example_state example_report)
       = [[''/backup/Heat (1995)'']]
   \<and> ''/media/Movies'' \<notin> \<Union> (set (map (set \<circ> duplicate_paths)
                                   (lookup_duplicate_folders example_state example_report)))"
proof -
  have b: "lower (basename ''/media/Movies'') = ''movies''" by code_simp
  have h: "(\<exists>root_folder \<in> set (root_folders_to_ignore example_state).
        ''/media/Movies'' = root_folder \<or> startswith ''/media/Movies'' (root_folder @ ''/''))
     \<and> lower (basename ''/media/Movies'') \<in> set [''films'', ''movies'', ''television'', ''tv'', ''videos'']"
    by (simp add: b example_state_def)
  have m: "path_matches AtStart (''Folder: Heat'' @ [CHR 0x0A] @ ''  /media/Movies'' @ [CHR 0x0A]
         @ ''  /backup/Heat (1995)'' @ [CHR 0x0A])
       = [''/media/Movies'', ''/backup/Heat (1995)'']"
    by code_simp
  have l: "map duplicate_paths (lookup_duplicate_folders example_state example_report)
       = [[''/backup/Heat (1995)'']]"
    by code_simp
  from C1_protected_path_excluded [of example_state "''/media/Movies''" example_report] h
  have "is_protected_path (root_folders_to_ignore example_state) ''/media/Movies''"
    and "\<forall>r \<in> set (lookup_duplicate_folders example_state example_report).
           ''/media/Movies'' \<notin> set (duplicate_paths r)"
    by blast+
  with b m l show ?thesis by auto
qed

lemma scan_dups_iff:
  "scan_dups hp folder_name dups \<longleftrightarrow> (\<exists>d \<in> set dups. path_related hp d folder_name)"
  by (induction dups) auto

lemma path_tier_None_iff:
  "path_tier k folder_name dups es = None
     \<longleftrightarrow> \<not> (\<exists>e \<in> set es. \<exists>d \<in> set dups. path_related (snd e) d folder_name)"
proof (induction es)
  case Nil
  then show ?case by simp
next
  case (Cons e es)
  obtain t hp where e: "e = (t, hp)" by (cases e) auto
  show ?case
  proof (cases "scan_dups hp folder_name dups")
    case True
    then show ?thesis using scan_dups_iff [of hp folder_name dups] by (simp add: e)
  next
    case False
    then show ?thesis using Cons.IH scan_dups_iff [of hp folder_name dups] by (simp add: e)
  qed
qed

lemma path_tier_Some:
  "path_tier k folder_name dups es = Some m \<Longrightarrow> match_type m = Some ''path_comparison''"
proof (induction es)
  case Nil
  then show ?case by simp
next
  case (Cons e es)
  obtain t hp where e: "e = (t, hp)" by (cases e) auto
  show ?case
  proof (cases "scan_dups hp folder_name dups")
    case True
    with Cons.prems have "m = \<lparr>kind = k, title = t, info_host_path = hp,
                                match_type = Some ''path_comparison''\<rparr>"
      by (simp add: e)
    then show ?thesis by simp
  next
    case False
    with Cons.prems have "path_tier k folder_name dups es = Some m" by (simp add: e)
    then show ?thesis by (rule Cons.IH)
  qed
qed

lemma fuzzy_tier_None_iff:
  "fuzzy_tier k folder_name es = None \<longleftrightarrow> \<not> (\<exists>e \<in> set es. fuzzy_related folder_name (snd e))"
proof (induction es)
  case Nil
  then show ?case by simp
next
  case (Cons e es)
  obtain t hp where e: "e = (t, hp)" by (cases e) auto
  show ?case using Cons.IH by (cases "fuzzy_related folder_name hp") (simp_all add: e)
qed

lemma fuzzy_tier_Some:
  "fuzzy_tier k folder_name es = Some m \<Longrightarrow> match_type m = Some ''fuzzy_name''"
proof (induction es)
  case Nil
  then show ?case by simp
next
  case (Cons e es)
  obtain t hp where e: "e = (t, hp)" by (cases e) auto
  show ?case
  proof (cases "fuzzy_related folder_name hp")
    case True
    with Cons.prems have "m = \<lparr>kind = k, title = t, info_host_path = hp,
                                match_type = Some ''fuzzy_name''\<rparr>"
      by (simp add: e)
    then show ?thesis by simp
  next
    case False
    with Cons.prems have "fuzzy_tier k folder_name es = Some m" by (simp add: e)
    then show ?thesis by (rule Cons.IH)
  qed
qed

text \<open>
  C6. The tiers are tried in the order direct name, path comparison, fuzzy name, and the
  first success is returned: an exact key of the folder index yields its entry whatever
  the catalogs and the duplicate paths are (so also when a fuzzy match exists); without
  one, any path-comparison match yields a \<open>path_comparison\<close> result; without either, a
  fuzzy match on a non-empty folder name yields a \<open>fuzzy_name\<close> result; otherwise there
  is no result.
\<close>

theorem C6_tier_order:
  "(folder_to_path_map st folder_name = Some entry
      \<longrightarrow> get_official_path_for_folder st folder_name dups = Some entry)
   \<and> (folder_to_path_map st folder_name = None
       \<and> (\<exists>e \<in> set (sonarr_series_details st @ radarr_movie_details st).
             \<exists>d \<in> set dups. path_related (snd e) d folder_name)
      \<longrightarrow> (\<exists>m. get_official_path_for_folder st folder_name dups = Some m
               \<and> match_type m = Some ''path_comparison''))
   \<and> (folder_to_path_map st folder_name = None
       \<and> \<not> (\<exists>e \<in> set (sonarr_series_details st @ radarr_movie_details st).
             \<exists>d \<in> set dups. path_related (snd e) d folder_name)
       \<and> folder_name \<noteq> []
       \<and> (\<exists>e \<in> set (sonarr_series_details st @ radarr_movie_details st).
             fuzzy_related folder_name (snd e))
      \<longrightarrow> (\<exists>m. get_official_path_for_folder st folder_name dups = Some m
               \<and> match_type m = Some ''fuzzy_name''))
   \<and> (folder_to_path_map st folder_name = None
       \<and> \<not> (\<exists>e \<in> set (sonarr_series_details st @ radarr_movie_details st).
             \<exists>d \<in> set dups. path_related (snd e) d folder_name)
       \<and> (folder_name = []
           \<or> \<not> (\<exists>e \<in> set (sonarr_series_details st @ radarr_movie_details st).
                   fuzzy_related folder_name (snd e)))
      \<longrightarrow> get_official_path_for_folder st folder_name dups = None)"
proof (intro conjI impI)
  assume "folder_to_path_map st folder_name = Some entry"
  then show "get_official_path_for_folder st folder_name dups = Some entry"
    by (simp add: get_official_path_for_folder_def)
next
  assume a: "folder_to_path_map st folder_name = None
       \<and> (\<exists>e \<in> set (sonarr_series_details st @ radarr_movie_details st).
             \<exists>d \<in> set dups. path_related (snd e) d folder_name)"
  show "\<exists>m. get_official_path_for_folder st folder_name dups = Some m
               \<and> match_type m = Some ''path_comparison''"
  proof (cases "path_tier ''series'' folder_name dups (sonarr_series_details st)")
    case (Some m)
    with a path_tier_Some [OF Some] show ?thesis
      by (simp add: get_official_path_for_folder_def)
  next
    case None
    with a have "path_tier ''movie'' folder_name dups (radarr_movie_details st) \<noteq> None"
      by (auto simp: path_tier_None_iff)
    then obtain m where m: "path_tier ''movie'' folder_name dups (radarr_movie_details st) = Some m"
      by blast
    with a None path_tier_Some [OF m] show ?thesis
      by (simp add: get_official_path_for_folder_def)
  qed
next
  assume a: "folder_to_path_map st folder_name = None
       \<and> \<not> (\<exists>e \<in> set (sonarr_series_details st @ radarr_movie_details st).
             \<exists>d \<in> set dups. path_related (snd e) d folder_name)
       \<and> folder_name \<noteq> []
       \<and> (\<exists>e \<in> set (sonarr_series_details st @ radarr_movie_details st).
             fuzzy_related folder_name (snd e))"
  then have p: "path_tier ''series'' folder_name dups (sonarr_series_details st) = None"
    "path_tier ''movie'' folder_name dups (radarr_movie_details st) = None"
    by (auto simp: path_tier_None_iff)
  show "\<exists>m. get_official_path_for_folder st folder_name dups = Some m
               \<and> match_type m = Some ''fuzzy_name''"
  proof (cases "fuzzy_tier ''series'' folder_name (sonarr_series_details st)")
    case (Some m)
    with a p fuzzy_tier_Some [OF Some] show ?thesis
      by (simp add: get_official_path_for_folder_def)
  next
    case None
    with a have "fuzzy_tier ''movie'' folder_name (radarr_movie_details st) \<noteq> None"
      by (auto simp: fuzzy_tier_None_iff)
    then obtain m where m: "fuzzy_tier ''movie'' folder_name (radarr_movie_details st) = Some m"
      by blast
    with a p None fuzzy_tier_Some [OF m] show ?thesis
      by (simp add: get_official_path_for_folder_def)
  qed
next
  assume a: "folder_to_path_map st folder_name = None
       \<and> \<not> (\<exists>e \<in> set (sonarr_series_details st @ radarr_movie_details st).
             \<exists>d \<in> set dups. path_related (snd e) d folder_name)
       \<and> (folder_name = []
           \<or> \<not> (\<exists>e \<in> set (sonarr_series_details st @ radarr_movie_details st).
                   fuzzy_related folder_name (snd e)))"
  then have p: "path_tier ''series'' folder_name dups (sonarr_series_details st) = None"
    "path_tier ''movie'' folder_name dups (radarr_movie_details st) = None"
    by (auto simp: path_tier_None_iff)
  from a have "folder_name = [] \<or>
      (fuzzy_tier ''series'' folder_name (sonarr_series_details st) = None
       \<and> fuzzy_tier ''movie'' folder_name (radarr_movie_details st) = None)"
    by (auto simp: fuzzy_tier_None_iff)
  with a p show "get_official_path_for_folder st folder_name dups = None"
    by (auto simp: get_official_path_for_folder_def)
qed


theorem C6_tier_order_witness:
  "get_official_path_for_folder example_state ''Heat (1995)'' [''/backup/Heat (1995)'']
     = Some \<lparr>kind = ''movie'', title = ''Heat'', info_host_path = ''/media/Movies/Heat (1995)'',
             match_type = None\<rparr>
   \<and> fuzzy_tier ''movie'' ''Heat (1995)'' (radarr_movie_details example_state)
     = Some \<lparr>kind = ''movie'', title = ''Heat'', info_host_path = ''/media/Movies/Heat (1995)'',
             match_type = Some ''fuzzy_name''\<rparr>
   \<and> path_related ''/media/TV/Lost'' ''/backup/Lost'' ''Lost S1''
   \<and> fuzzy_related ''Lost S1'' ''/media/TV/Lost''
   \<and> (\<exists>m. get_official_path_for_folder example_state ''Lost S1'' [''/backup/Lost''] = Some m
          \<and> match_type m = Some ''path_comparison'')
   \<and> (\<exists>m. get_official_path_for_folder example_state ''Lost S1'' [''/backup/zzz''] = Some m
          \<and> match_type m = Some ''fuzzy_name'')
   \<and> get_official_path_for_folder example_state ''Zzz'' [''/backup/zzz''] = None"
proof -
  let ?direct = "\<lparr>kind = ''movie'', title = ''Heat'',
                  info_host_path = ''/media/Movies/Heat (1995)'', match_type = None\<rparr>"
  have d: "folder_to_path_map example_state ''Heat (1995)'' = Some ?direct"
    by (simp add: example_state_def)
  have n: "folder_to_path_map example_state ''Lost S1'' = None"
    "folder_to_path_map example_state ''Zzz'' = None"
    by (simp_all add: example_state_def)
  have cat: "sonarr_series_details example_state @ radarr_movie_details example_state
      = [(''Lost'', ''/media/TV/Lost''), (''Heat'', ''/media/Movies/Heat (1995)'')]"
    by (simp add: example_state_def)
  have f: "fuzzy_tier ''movie'' ''Heat (1995)'' (radarr_movie_details example_state)
     = Some \<lparr>kind = ''movie'', title = ''Heat'', info_host_path = ''/media/Movies/Heat (1995)'',
             match_type = Some ''fuzzy_name''\<rparr>"
    by code_simp
  have p1: "path_related ''/media/TV/Lost'' ''/backup/Lost'' ''Lost S1''" by code_simp
  have p2: "\<not> path_related ''/media/TV/Lost'' ''/backup/zzz'' ''Lost S1''"
    "\<not> path_related ''/media/Movies/Heat (1995)'' ''/backup/zzz'' ''Lost S1''"
    "\<not> path_related ''/media/TV/Lost'' ''/backup/zzz'' ''Zzz''"
    "\<not> path_related ''/media/Movies/Heat (1995)'' ''/backup/zzz'' ''Zzz''"
    by code_simp+
  have f1: "fuzzy_related ''Lost S1'' ''/media/TV/Lost''" by code_simp
  have f2: "\<not> fuzzy_related ''Zzz'' ''/media/TV/Lost''"
    "\<not> fuzzy_related ''Zzz'' ''/media/Movies/Heat (1995)''"
    by code_simp+
  from C6_tier_order [of example_state "''Heat (1995)''" ?direct "[''/backup/Heat (1995)'']"] d
  have r1: "get_official_path_for_folder example_state ''Heat (1995)'' [''/backup/Heat (1995)'']
     = Some ?direct"
    by blast
  from C6_tier_order [of example_state "''Lost S1''" _ "[''/backup/Lost'']"] n p1
  have r2: "\<exists>m. get_official_path_for_folder example_state ''Lost S1'' [''/backup/Lost''] = Some m
          \<and> match_type m = Some ''path_comparison''"
    by (simp add: cat)
  from C6_tier_order [of example_state "''Lost S1''" _ "[''/backup/zzz'']"] n p2 f1
  have r3: "\<exists>m. get_official_path_for_folder example_state ''Lost S1'' [''/backup/zzz''] = Some m
          \<and> match_type m = Some ''fuzzy_name''"
    by (simp add: cat)
  from C6_tier_order [of example_state "''Zzz''" _ "[''/backup/zzz'']"] n p2 f2
  have r4: "get_official_path_for_folder example_state ''Zzz'' [''/backup/zzz''] = None"
    by (simp add: cat)
  from r1 f p1 f1 r2 r3 r4 show ?thesis by blast
qed


section \<open>The report writer fails on every duplicate group\<close>

lemma ev_fd: "find_similar_media_folders_fd
     [(''Moonlight'', [''/a/Moonlight/m.mkv'']), (''Moonlight1'', [''/b/Moonlight1/m.mkv''])]
   = [\<lparr>base_folder = ''Moonlight'', similar_folders = [''Moonlight1''],
       similarity_scores = [18 / 19], files = [''/a/Moonlight/m.mkv'']\<rparr>]"
  by code_simp

lemma write_report_group_raises:
  "similar_folders g \<noteq> [] \<Longrightarrow> similarity_scores g \<noteq> [] \<Longrightarrow>
   snd (write_report_group fmt2 stat g) = Some NameError"
  by (cases "similar_folders g"; cases "similarity_scores g")
    (simp_all add: write_report_group_def)

lemma write_report_raises_on_duplicates:
  assumes "distinct (map fst fm)" and "find_similar_media_folders_fd fm \<noteq> []"
  shows "snd (write_report fmt2 stat (find_similar_media_folders_fd fm)) = Some NameError"
proof -
  obtain g gs where r: "find_similar_media_folders_fd fm = g # gs"
    using assms(2) by (cases "find_similar_media_folders_fd fm") auto
  obtain p where l: "group_loop False fm (cleaned_folders fm) (cleaned_folders fm) ({}, []) = (p, g # gs)"
    using r by (cases "group_loop False fm (cleaned_folders fm) (cleaned_folders fm) ({}, [])")
      (simp add: find_similar_media_folders_fd_def)
  have "\<forall>x \<in> set (g # gs). group_ok x"
    by (rule group_loop_sound [OF cleaned_folders_keys distinct_cleaned_folders [OF assms(1)]
          cleaned_folders_keys _ l]) simp
  then have "similar_folders g \<noteq> []" "similarity_scores g \<noteq> []"
    by (auto simp: group_ok_def)
  then have "snd (write_report_group fmt2 stat g) = Some NameError"
    by (rule write_report_group_raises)
  then obtain ws where "write_report_group fmt2 stat g = (ws, Some NameError)"
    by (cases "write_report_group fmt2 stat g") auto
  then show ?thesis
    by (simp add: r write_report_def)
qed

text \<open>
  C8 fails on the code. \<open>write_report\<close> of src/find\_dupes.py reads \<open>folder_map\<close>, a name
  that is bound only inside \<open>scan_directory\<close> and \<open>scan_for_duplicates\<close>: as soon as
  a group has a similar folder with a score, the loop over that folder's files raises
  NameError, after the folder's line has been written. Every group of the grouper has
  one (lemma \<open>write_report_raises_on_duplicates\<close>), as has the index of two folders
  \<open>Moonlight\<close> and \<open>Moonlight1\<close> evaluated here.
\<close>

theorem C8_write_report_raises_NameError:
  "snd (write_report fmt2 stat
          (g\<lparr>similar_folders := f # fs, similarity_scores := s # ss\<rparr> # gs)) = Some NameError
   \<and> snd (write_report fmt2 stat
          (find_similar_media_folders_fd
             [(''Moonlight'', [''/a/Moonlight/m.mkv'']),
              (''Moonlight1'', [''/b/Moonlight1/m.mkv''])])) = Some NameError"
  by (simp add: ev_fd write_report_def write_report_group_def split: prod.splits)


section \<open>The report parser records no file\<close>

lemma strip_first_not_space:
  assumes "strip s \<noteq> []"
  shows "\<not> is_space (hd (strip s))"
proof -
  define t where "t = dropWhile is_space s"
  define u where "u = dropWhile is_space (rev t)"
  have su: "strip s = rev u" by (simp add: strip_def t_def u_def)
  have "rev t = takeWhile is_space (rev t) @ u" by (simp add: u_def)
  then have "t = rev u @ rev (takeWhile is_space (rev t))"
    by (metis rev_append rev_rev_ident)
  moreover have "rev u \<noteq> []" using assms su by simp
  ultimately have h: "hd t = hd (rev u)" and "t \<noteq> []"
    by (metis hd_append2, metis append_is_Nil_conv)
  then have "\<not> is_space (hd t)" unfolding t_def by (metis hd_dropWhile)
  with h su show ?thesis by simp
qed

lemma stripped_line_is_no_path_line: "\<not> startswith (strip raw) ''  /''"
proof
  assume a: "startswith (strip raw) ''  /''"
  then have "take (length ''  /'') (strip raw) = ''  /''" by (simp only: startswith_def)
  then obtain r where "strip raw = CHR '' '' # r"
    by (cases "strip raw") auto
  then have "strip raw \<noteq> []" "hd (strip raw) = CHR '' ''" by simp_all
  with strip_first_not_space [of raw] show False
    by (simp add: is_space_def whitespace_chars_def)
qed




text \<open>
  C9 fails on the code. \<open>parse_report\<close> strips every line before it tests it, and the
  test for a file line is \<open>line.startswith('  /')\<close>, two spaces and a slash: no stripped
  line starts with a space, so the branch that would record a file on the base side or on
  the similar side never runs, and every parsed group has two empty file lists (lemma
  \<open>parse_report_no_files\<close>). The report below has one file line before the
  \<open>Similar Folder\<close> line and one after it; neither is recorded.
\<close>

theorem C9_path_lines_are_dropped:
  "\<not> startswith (strip raw) ''  /''
   \<and> parse_report
        [delimiter @ nl,
         ''Base Folder: Show'' @ nl,
         ''Files:'' @ nl,
         ''  /a/Show/e.mkv (1.00 GB)'' @ nl,
         nl,
         ''Similar Folder (similarity: 0.95): Show.2019'' @ nl,
         ''  /b/Show.2019/e.mkv (1.00 GB)'' @ nl]
     = Inr [\<lparr>rg_base_folder = Some ''Show'', base_files = [],
             rg_similar_folders = [''Similar Folder (similarity: 0.95): Show.2019''],
             similar_files = []\<rparr>]"
proof
  show "\<not> startswith (strip raw) ''  /''" by (rule stripped_line_is_no_path_line)
  show "parse_report
        [delimiter @ nl,
         ''Base Folder: Show'' @ nl,
         ''Files:'' @ nl,
         ''  /a/Show/e.mkv (1.00 GB)'' @ nl,
         nl,
         ''Similar Folder (similarity: 0.95): Show.2019'' @ nl,
         ''  /b/Show.2019/e.mkv (1.00 GB)'' @ nl]
     = Inr [\<lparr>rg_base_folder = Some ''Show'', base_files = [],
             rg_similar_folders = [''Similar Folder (similarity: 0.95): Show.2019''],
             similar_files = []\<rparr>]"
    by code_simp
qed


section \<open>Unknown sizes in the planner\<close>

lemma sizes_of_unknown:
  "\<forall>f \<in> set fs. snd f = ''Unknown'' \<Longrightarrow> sizes_of to_float fs = Inr (replicate (length fs) 0)"
proof (induction fs)
  case Nil
  then show ?case by simp
next
  case (Cons f fs)
  obtain p sz where f: "f = (p, sz)" by (cases f) auto
  with Cons show ?case by (simp add: format_size_bytes_def)
qed

lemma bit_length_values: "bit_length 1 = 1" "bit_length 1024 = 11"
  by code_simp+

lemma binary64_zero: "binary64 0 = Finite 0"
  by (simp add: binary64_def)

lemma binary64_one: "binary64 1 = Finite 1"
  by (simp add: binary64_def pow2_def round_half_even_def Let_def bit_length_values)

lemma binary64_1024: "binary64 1024 = Finite 1024"
  by (simp add: binary64_def pow2_def round_half_even_def Let_def bit_length_values)

lemma exceeds_zero: "exceeds a 0 = Inr (0 < a)"
  by (simp add: exceeds_def binary64_zero)

lemma one_kilobyte: "format_size_bytes decimal_float ''1.00 KB'' = Inr 1024"
proof -
  have s: "split_ws ''1.00 KB'' = [''1.00'', ''KB'']" by code_simp
  have w: "split_sign (lower (strip ''1.00'')) = (False, ''1.00'')" by code_simp
  have v: "decimal_value ''1.00'' = Some 1" by code_simp
  have f: "decimal_float ''1.00'' = Some (Finite 1)"
    by (simp add: decimal_float_def w v binary64_one)
  have u: "units ''KB'' = Some 1024" by (simp add: units_def)
  show ?thesis
    by (simp add: format_size_bytes_def s f u float_times_def binary64_1024 py_int_def)
qed

lemma unknown_side_compared_as_zero:
  assumes "similar_files g \<noteq> []" and "\<forall>f \<in> set (similar_files g). snd f = ''Unknown''"
    and "sizes_of to_float (base_files g) = Inr base_sizes" and "base_sizes \<noteq> []"
  shows "size_suggestion to_float g =
           (if 0 < Max (set base_sizes) then ([suggest_base], None)
            else (case exceeds 0 (Max (set base_sizes)) of
                    Inl e \<Rightarrow> ([], Some e)
                  | Inr True \<Rightarrow> ([suggest_similar], None)
                  | Inr False \<Rightarrow> ([], None)))"
proof -
  have s: "sizes_of to_float (similar_files g) = Inr (replicate (length (similar_files g)) 0)"
    by (rule sizes_of_unknown [OF assms(2)])
  have "set (replicate (length (similar_files g)) (0::int)) = {0}"
    using assms(1) by auto
  then have m: "Max (set (replicate (length (similar_files g)) (0::int))) = 0" by simp
  show ?thesis
    using assms(1,4) by (simp add: size_suggestion_def assms(3) s m exceeds_zero Let_def)
qed

text \<open>
  C10 fails on the code in its first part, by the same defect as C9: a file line with no
  size annotation is not recorded at all, so it is not parsed with size \<open>Unknown\<close>,
  although the expression that would do so (\<open>path_and_size\<close>) gives \<open>Unknown\<close> for it.
  The other parts hold in the planner: \<open>format_size_bytes\<close> maps \<open>Unknown\<close> to 0,
  and a similar side of unknown sizes only is compared as 0, so that a base file of one
  kilobyte draws the suggestion to keep the base files (in general, lemma
  \<open>unknown_side_compared_as_zero\<close>).
\<close>

theorem C10_unannotated_file_is_not_parsed:
  "parse_report [delimiter @ nl, ''Base Folder: Show'' @ nl, ''Files:'' @ nl,
                 ''  /a/Show/e.mkv'' @ nl]
     = Inr [\<lparr>rg_base_folder = Some ''Show'', base_files = [], rg_similar_folders = [],
             similar_files = []\<rparr>]
   \<and> path_and_size ''  /a/Show/e.mkv'' = (''/a/Show/e.mkv'', ''Unknown'')
   \<and> format_size_bytes to_float ''Unknown'' = Inr 0
   \<and> size_suggestion decimal_float
        \<lparr>rg_base_folder = Some ''Show'', base_files = [(''/a/Show/e.mkv'', ''1.00 KB'')],
         rg_similar_folders = [''Similar Folder (similarity: 0.95): Show.2019''],
         similar_files = [(''/b/Show.2019/e.mkv'', ''Unknown'')]\<rparr>
     = ([suggest_base], None)"
proof (intro conjI)
  show "parse_report [delimiter @ nl, ''Base Folder: Show'' @ nl, ''Files:'' @ nl,
                 ''  /a/Show/e.mkv'' @ nl]
     = Inr [\<lparr>rg_base_folder = Some ''Show'', base_files = [], rg_similar_folders = [],
             similar_files = []\<rparr>]"
    by code_simp
  show "path_and_size ''  /a/Show/e.mkv'' = (''/a/Show/e.mkv'', ''Unknown'')"
    by code_simp
  show "format_size_bytes to_float ''Unknown'' = Inr 0"
    by (simp add: format_size_bytes_def)
  have b: "sizes_of decimal_float [(''/a/Show/e.mkv'', ''1.00 KB'')] = Inr [1024]"
    by (simp add: one_kilobyte)
  show "size_suggestion decimal_float
        \<lparr>rg_base_folder = Some ''Show'', base_files = [(''/a/Show/e.mkv'', ''1.00 KB'')],
         rg_similar_folders = [''Similar Folder (similarity: 0.95): Show.2019''],
         similar_files = [(''/b/Show.2019/e.mkv'', ''Unknown'')]\<rparr>
     = ([suggest_base], None)"
    using unknown_side_compared_as_zero [of "\<lparr>rg_base_folder = Some ''Show'',
         base_files = [(''/a/Show/e.mkv'', ''1.00 KB'')],
         rg_similar_folders = [''Similar Folder (similarity: 0.95): Show.2019''],
         similar_files = [(''/b/Show.2019/e.mkv'', ''Unknown'')]\<rparr>" decimal_float "[1024]"] b
    by simp
qed


section \<open>The cleanup planner on parsed groups\<close>

















end
